theory Spec2Isabelle
  imports Complex_Main "HOL-Library.AList" "HOL-Library.Sublist"
begin

section \<open>Strings\<close>

text \<open>
  A JavaScript string is a sequence of code units. The model uses \<^typ>\<open>string\<close>, whose
  characters are the code units below 256. \<open>String.prototype.trim\<close> removes white space
  and line terminators from both ends; in this range they are TAB, LF, VT, FF, CR, SPACE
  and NBSP.
\<close>

definition is_white_space :: "char \<Rightarrow> bool" where
  "is_white_space c \<longleftrightarrow>
     c \<in> set [CHR 0x09, CHR 0x0A, CHR 0x0B, CHR 0x0C, CHR 0x0D, CHR 0x20, CHR 0xA0]"

definition trim :: "string \<Rightarrow> string" where
  "trim s = rev (dropWhile is_white_space (rev (dropWhile is_white_space s)))"

text \<open>\<open>Array.prototype.join\<close> on an array of strings.\<close>

fun join :: "string \<Rightarrow> string list \<Rightarrow> string" where
  "join sep [] = []"
| "join sep [x] = x"
| "join sep (x # y # ys) = x @ sep @ join sep (y # ys)"

text \<open>A template literal prints an \<open>undefined\<close> operand as the text \<open>undefined\<close>.\<close>

definition template_string :: "string option \<Rightarrow> string" where
  "template_string v = (case v of None \<Rightarrow> ''undefined'' | Some s \<Rightarrow> s)"

text \<open>\<open>v || ""\<close> on an optional string.\<close>

definition or_empty :: "string option \<Rightarrow> string" where
  "or_empty v = (case v of None \<Rightarrow> [] | Some s \<Rightarrow> s)"

text \<open>What a \<open>throw\<close> carries: an instance of \<open>Error\<close> with its message, or any other value.\<close>

datatype thrown = ErrorObject string | OtherThrown

section \<open>Types of \<open>types.ts\<close>\<close>

datatype permission_mode = Default | AcceptEdits | BypassPermissions | Plan

record mcp_server_config =
  command :: string
  args :: "string list option"
  env :: "(string \<times> string) list option"

text \<open>
  The composition strategies take \<open>{ name, systemPrompt }\<close> objects; \<open>AgentConfig\<close>, the
  pipeline's stages and the supervisor's delegates extend that shape. An optional property
  is an \<open>option\<close>, \<open>None\<close> when it is absent.
\<close>

record agent_spec =
  name :: string
  systemPrompt :: string

text \<open>
  The constructor spreads the caller's object over three defaults, and a property that
  is present with the value \<open>undefined\<close> overrides a default just as a value does. For
  these three properties the outer \<open>option\<close> says whether the key is present and the inner
  one whether its value is defined; for the others an absent key and \<open>undefined\<close> read
  alike.
\<close>

record agent_config = agent_spec +
  model :: "string option option"
  maxTurns :: "nat option option"
  permissionMode :: "permission_mode option option"
  allowedTools :: "string list option"
  disallowedTools :: "string list option"
  mcpServers :: "(string \<times> mcp_server_config) list option"

text \<open>
  A stage's \<open>transform\<close> is a callback of the caller; like any call it may throw, which
  is \<open>Inl\<close>.
\<close>

record pipeline_stage = agent_spec +
  transform :: "(string \<Rightarrow> thrown + string) option"

record sub_agent = agent_spec +
  description :: string

record agent_result =
  success :: bool
  result :: "string option"
  sessionId :: "string option"
  numTurns :: "nat option"
  usage :: "(nat \<times> nat) option"
  totalCostUsd :: "real option"
  error :: "string option"
  errors :: "string list option"

text \<open>\<open>AgentHandoff\<close>; the payload \<open>data\<close> has type \<open>unknown\<close>, here a type parameter.\<close>

record 'd agent_handoff =
  fromAgent :: string
  toAgent :: string
  handoff_context :: string
  data :: "'d option"

section \<open>The query engine\<close>

text \<open>
  \<open>query\<close> belongs to the SDK, not to this repository: it is a parameter of the model.
  A result message carries the fields \<open>run\<close> reads; the other messages are told apart by
  their \<open>type\<close> only.
\<close>

record sdk_result_message =
  subtype :: string
  session_id :: string
  num_turns :: nat
  result_text :: string
  input_tokens :: nat
  output_tokens :: nat
  total_cost_usd :: real
  msg_errors :: "string list option"

datatype sdk_message =
    SDKAssistantMessage
  | SDKUserMessage
  | SDKSystemMessage
  | SDKResultMessage sdk_result_message

record query_params =
  q_prompt :: string
  q_model :: "string option"
  q_systemPrompt :: string
  q_maxTurns :: "nat option"
  q_permissionMode :: "permission_mode option"
  q_allowedTools :: "string list option"
  q_disallowedTools :: "string list option"
  q_mcpServers :: "(string \<times> mcp_server_config) list option"
  q_resume :: "string option"

text \<open>
  One invocation of \<open>query\<close> yields the messages of \<open>events\<close> in order and then either
  finishes (\<open>raised = None\<close>) or throws. A call of \<open>query\<close> that throws at once has no events.
\<close>

record query_outcome =
  events :: "sdk_message list"
  raised :: "thrown option"

text \<open>
  The world records, in order, every agent constructed and every query issued with its
  outcome. The engine sees the queries made so far, so it may answer the same request
  differently each time.
\<close>

record world =
  constructed :: "agent_config list"
  queries :: "(query_params \<times> query_outcome) list"

type_synonym engine = "(query_params \<times> query_outcome) list \<Rightarrow> query_params \<Rightarrow> query_outcome"

section \<open>\<open>BaseAgent\<close>\<close>

definition DEFAULT_MODEL :: string where
  "DEFAULT_MODEL = ''claude-sonnet-4-5-20250929''"

definition DEFAULT_MAX_TURNS :: nat where
  "DEFAULT_MAX_TURNS = 10"

record base_agent =
  config :: agent_config
  agent_sessionId :: "string option"

text \<open>
  The constructor: \<open>{ model: DEFAULT_MODEL, maxTurns: DEFAULT_MAX_TURNS, permissionMode:
  "default", ...config }\<close>. A key of \<open>config\<close> that is present wins, whatever its value.
\<close>

definition with_defaults :: "agent_config \<Rightarrow> agent_config" where
  "with_defaults c =
     c\<lparr> model := (case model c of None \<Rightarrow> Some (Some DEFAULT_MODEL) | Some v \<Rightarrow> Some v),
        maxTurns := (case maxTurns c of None \<Rightarrow> Some (Some DEFAULT_MAX_TURNS) | Some v \<Rightarrow> Some v),
        permissionMode := (case permissionMode c of None \<Rightarrow> Some (Some Default) | Some v \<Rightarrow> Some v) \<rparr>"

text \<open>Reading a property: \<open>undefined\<close> when the key is absent, its value otherwise.\<close>

definition read_property :: "'a option option \<Rightarrow> 'a option" where
  "read_property p = (case p of None \<Rightarrow> None | Some v \<Rightarrow> v)"

definition new_BaseAgent :: "agent_config \<Rightarrow> world \<Rightarrow> base_agent \<times> world" where
  "new_BaseAgent c w =
     (\<lparr> config = with_defaults c, agent_sessionId = None \<rparr>,
      w\<lparr> constructed := constructed w @ [c] \<rparr>)"

definition createAgent :: "string \<Rightarrow> string \<Rightarrow> world \<Rightarrow> base_agent \<times> world" where
  "createAgent n sp w =
     new_BaseAgent \<lparr> name = n, systemPrompt = sp, model = None, maxTurns = None,
       permissionMode = None, allowedTools = None, disallowedTools = None,
       mcpServers = None \<rparr> w"

definition run_params :: "base_agent \<Rightarrow> string \<Rightarrow> query_params" where
  "run_params a prompt =
     \<lparr> q_prompt = prompt,
       q_model = read_property (model (config a)),
       q_systemPrompt = systemPrompt (config a),
       q_maxTurns = read_property (maxTurns (config a)),
       q_permissionMode = read_property (permissionMode (config a)),
       q_allowedTools = allowedTools (config a),
       q_disallowedTools = disallowedTools (config a),
       q_mcpServers = mcpServers (config a),
       q_resume = agent_sessionId a \<rparr>"

definition failure :: "string \<Rightarrow> agent_result" where
  "failure msg =
     \<lparr> success = False, result = None, sessionId = None, numTurns = None, usage = None,
       totalCostUsd = None, error = Some msg, errors = None \<rparr>"

definition result_of_message :: "sdk_result_message \<Rightarrow> agent_result" where
  "result_of_message resultMsg =
     (if subtype resultMsg = ''success'' then
        \<lparr> success = True,
          result = Some (result_text resultMsg),
          sessionId = Some (session_id resultMsg),
          numTurns = Some (num_turns resultMsg),
          usage = Some (input_tokens resultMsg, output_tokens resultMsg),
          totalCostUsd = Some (total_cost_usd resultMsg),
          error = None, errors = None \<rparr>
      else
        \<lparr> success = False,
          result = None,
          sessionId = Some (session_id resultMsg),
          numTurns = Some (num_turns resultMsg),
          usage = None, totalCostUsd = None,
          error = Some (subtype resultMsg),
          errors = msg_errors resultMsg \<rparr>)"

text \<open>
  The \<open>for await\<close> loop of \<open>run\<close> over the messages delivered: the state is the agent's
  \<open>sessionId\<close> and the local \<open>result\<close>.
\<close>

fun for_await :: "sdk_message list \<Rightarrow> string option \<times> agent_result \<Rightarrow> string option \<times> agent_result" where
  "for_await [] st = st"
| "for_await (SDKResultMessage resultMsg # rest) (sid, res) =
     for_await rest (Some (session_id resultMsg), result_of_message resultMsg)"
| "for_await (_ # rest) st = for_await rest st"

text \<open>
  The \<open>try\<close> block of \<open>run\<close>: \<open>Inl\<close> is the value thrown by \<open>query\<close> or by its stream. An
  assignment to \<open>this.sessionId\<close> made before the throw stays.
\<close>

definition run_try :: "engine \<Rightarrow> base_agent \<Rightarrow> string \<Rightarrow> world \<Rightarrow> (thrown + agent_result) \<times> base_agent \<times> world" where
  "run_try eng a prompt w =
     (let params = run_params a prompt;
          out = eng (queries w) params;
          w' = w\<lparr> queries := queries w @ [(params, out)] \<rparr>;
          st = for_await (events out) (agent_sessionId a, failure ''No result received'')
      in ((case raised out of None \<Rightarrow> Inr (snd st) | Some e \<Rightarrow> Inl e),
          a\<lparr> agent_sessionId := fst st \<rparr>, w'))"

definition catch_result :: "thrown \<Rightarrow> agent_result" where
  "catch_result e = failure (case e of ErrorObject msg \<Rightarrow> msg | OtherThrown \<Rightarrow> ''Unknown error'')"

definition run :: "engine \<Rightarrow> base_agent \<Rightarrow> string \<Rightarrow> world \<Rightarrow> agent_result \<times> base_agent \<times> world" where
  "run eng a prompt w =
     (case run_try eng a prompt w of
        (Inr res, a', w') \<Rightarrow> (res, a', w')
      | (Inl e, a', w') \<Rightarrow> (catch_result e, a', w'))"

section \<open>JavaScript \<open>Map\<close> and numbers\<close>

text \<open>
  A \<open>Map\<close> keeps its keys in the order of their first insertion: \<open>set\<close> on a key that is
  present replaces the value in place, \<open>set\<close> on a new key appends the entry, and
  \<open>forEach\<close> visits the entries in that order. That is an association list under
  \<^const>\<open>AList.update\<close>.
\<close>

type_synonym ('k, 'v) js_map = "('k \<times> 'v) list"

definition map_set :: "'k \<Rightarrow> 'v \<Rightarrow> ('k, 'v) js_map \<Rightarrow> ('k, 'v) js_map" where
  "map_set k v m = AList.update k v m"

definition map_get :: "('k, 'v) js_map \<Rightarrow> 'k \<Rightarrow> 'v option" where
  "map_get m k = map_of m k"

text \<open>The decimal text of a natural number, as a template literal prints \<open>i + 1\<close>.\<close>

definition digit_char :: "nat \<Rightarrow> char" where
  "digit_char d = char_of (48 + d)"

fun string_of_nat :: "nat \<Rightarrow> string" where
  "string_of_nat n =
     (if n < 10 then [digit_char n] else string_of_nat (n div 10) @ [digit_char (n mod 10)])"

text \<open>
  The regular expression \<open>/^(\d+)/\<close>: the longest run of the digits 0 to 9 at the start of
  the text, and no match when that run is empty.
\<close>

definition is_digit :: "char \<Rightarrow> bool" where
  "is_digit c \<longleftrightarrow> c \<in> set ''0123456789''"

definition match_leading_digits :: "string \<Rightarrow> string option" where
  "match_leading_digits s =
     (let ds = takeWhile is_digit s in if ds = [] then None else Some ds)"

text \<open>
  \<open>parseInt\<close> on a run of decimal digits. JavaScript rounds a value above \<open>2^53\<close> to a
  double; such a value is out of range for every array either way, so the exact integer
  decides the range check of \<open>runConsensusAgents\<close> the same way.
\<close>

definition digit_value :: "char \<Rightarrow> int" where
  "digit_value c = of_char c - 48"

definition parseInt :: "string \<Rightarrow> int" where
  "parseInt ds = foldl (\<lambda>acc c. acc * 10 + digit_value c) 0 ds"

section \<open>\<open>AgentOrchestrator\<close>\<close>

record 'd orchestrator =
  agents :: "string \<rightharpoonup> base_agent"
  handoffHistory :: "'d agent_handoff list"
  currentAgent :: "string option"

text \<open>
  What the JavaScript runtime does with a payload of type \<open>unknown\<close>: its truthiness, and
  \<open>JSON.stringify(data, null, 2)\<close>, which throws on a cyclic structure or a \<open>BigInt\<close> and
  returns \<open>undefined\<close> for a function or a symbol.
\<close>

record 'd js_runtime =
  truthy :: "'d \<Rightarrow> bool"
  json_stringify :: "'d \<Rightarrow> thrown + string option"

definition new_AgentOrchestrator :: "'d orchestrator" where
  "new_AgentOrchestrator = \<lparr> agents = Map.empty, handoffHistory = [], currentAgent = None \<rparr>"

definition registerAgent :: "agent_config \<Rightarrow> 'd orchestrator \<Rightarrow> world \<Rightarrow> 'd orchestrator \<times> world" where
  "registerAgent c orch w =
     (let (agent, w') = new_BaseAgent c w
      in (orch\<lparr> agents := (agents orch)(name c \<mapsto> agent) \<rparr>, w'))"

definition getAgent :: "'d orchestrator \<Rightarrow> string \<Rightarrow> base_agent option" where
  "getAgent orch n = agents orch n"

text \<open>
  \<open>run\<close> mutates the agent object that the table holds; the model stores the agent after
  the run under its name.
\<close>

definition execute :: "engine \<Rightarrow> string \<Rightarrow> string \<Rightarrow> 'd orchestrator \<Rightarrow> world \<Rightarrow> agent_result \<times> 'd orchestrator \<times> world" where
  "execute eng startAgent task orch w =
     (case agents orch startAgent of
        None \<Rightarrow> (failure (''Agent not found: '' @ startAgent), orch, w)
      | Some agent \<Rightarrow>
          (let orch1 = orch\<lparr> currentAgent := Some startAgent \<rparr>;
               (res, agent', w') = run eng agent task w
           in (res, orch1\<lparr> agents := (agents orch1)(startAgent \<mapsto> agent') \<rparr>, w')))"

text \<open>The third line of the handoff message; \<open>Inl\<close> when \<open>JSON.stringify\<close> throws.\<close>

definition data_line :: "'d js_runtime \<Rightarrow> 'd option \<Rightarrow> thrown + string" where
  "data_line rt d =
     (case d of
        None \<Rightarrow> Inr []
      | Some v \<Rightarrow>
          if truthy rt v then
            (case json_stringify rt v of
               Inl e \<Rightarrow> Inl e
             | Inr s \<Rightarrow> Inr (''Data: '' @ template_string s))
          else Inr [])"

definition handoffMessage :: "string \<Rightarrow> string \<Rightarrow> string \<Rightarrow> string" where
  "handoffMessage cur ctxt dl =
     trim (''\<newline>[HANDOFF FROM '' @ cur @ '']\<newline>Context: '' @ ctxt @ ''\<newline>'' @ dl @
       ''\<newline>\<newline>Please continue with this task based on the context provided.\<newline>    '')"

text \<open>
  \<open>!this.currentAgent\<close> holds for \<open>null\<close> and for the empty string. \<open>handoff\<close> has no
  \<open>try\<close>: a value thrown while the message is built leaves the function as \<open>Inl\<close>, after
  the record was pushed and before the cursor moves.
\<close>

definition handoff :: "'d js_runtime \<Rightarrow> engine \<Rightarrow> string \<Rightarrow> string \<Rightarrow> 'd option \<Rightarrow> 'd orchestrator \<Rightarrow> world \<Rightarrow> (thrown + agent_result) \<times> 'd orchestrator \<times> world" where
  "handoff rt eng to ctxt d orch w =
     (case currentAgent orch of
        None \<Rightarrow> (Inr (failure ''No current agent to hand off from''), orch, w)
      | Some cur \<Rightarrow>
          if cur = [] then (Inr (failure ''No current agent to hand off from''), orch, w)
          else
            (case agents orch to of
               None \<Rightarrow> (Inr (failure (''Target agent not found: '' @ to)), orch, w)
             | Some nextAgent \<Rightarrow>
                 (let orch1 = orch\<lparr> handoffHistory := handoffHistory orch @
                                [\<lparr> fromAgent = cur, toAgent = to, handoff_context = ctxt, data = d \<rparr>] \<rparr>
                  in (case data_line rt d of
                        Inl e \<Rightarrow> (Inl e, orch1, w)
                      | Inr dl \<Rightarrow>
                          (let orch2 = orch1\<lparr> currentAgent := Some to \<rparr>;
                               (res, agent', w') = run eng nextAgent (handoffMessage cur ctxt dl) w
                           in (Inr res, orch2\<lparr> agents := (agents orch2)(to \<mapsto> agent') \<rparr>, w'))))))"

definition getHandoffHistory :: "'d orchestrator \<Rightarrow> 'd agent_handoff list" where
  "getHandoffHistory orch = handoffHistory orch"

definition reset_agent :: "base_agent \<Rightarrow> base_agent" where
  "reset_agent a = a\<lparr> agent_sessionId := None \<rparr>"

definition reset :: "'d orchestrator \<Rightarrow> 'd orchestrator" where
  "reset orch =
     \<lparr> agents = (\<lambda>n. map_option reset_agent (agents orch n)), handoffHistory = [],
       currentAgent = None \<rparr>"

section \<open>Composition strategies\<close>

text \<open>The loop of \<open>runSequentialChain\<close>, over the agents still to run.\<close>

fun sequential_loop :: "engine \<Rightarrow> agent_spec list \<Rightarrow> string \<Rightarrow> agent_result list \<Rightarrow> world \<Rightarrow> agent_result list \<times> world" where
  "sequential_loop eng [] currentInput results w = (results, w)"
| "sequential_loop eng (agentConfig # rest) currentInput results w =
     (let (agent, w1) = createAgent (name agentConfig) (systemPrompt agentConfig) w;
          (res, agent', w2) = run eng agent currentInput w1;
          results' = results @ [res]
      in if \<not> success res then (results', w2)
         else sequential_loop eng rest
                (''Previous agent output:\<newline>'' @ template_string (result res) @
                 ''\<newline>\<newline>Please continue with your task.'')
                results' w2)"

definition runSequentialChain :: "engine \<Rightarrow> agent_spec list \<Rightarrow> string \<Rightarrow> world \<Rightarrow> agent_result list \<times> world" where
  "runSequentialChain eng agentList initialInput w = sequential_loop eng agentList initialInput [] w"

text \<open>
  \<open>agents.map(async ...)\<close>: each callback runs up to its first suspension when it is called,
  so the agents are constructed and their queries issued in the order of the list; the
  agents share no state, and \<open>Promise.all\<close> gives the outcomes in that order.
\<close>

fun parallel_outcomes :: "engine \<Rightarrow> agent_spec list \<Rightarrow> string \<Rightarrow> world \<Rightarrow> (string \<times> agent_result) list \<times> world" where
  "parallel_outcomes eng [] input w = ([], w)"
| "parallel_outcomes eng (agentConfig # rest) input w =
     (let (agent, w1) = createAgent (name agentConfig) (systemPrompt agentConfig) w;
          (res, agent', w2) = run eng agent input w1;
          (outcomes, w3) = parallel_outcomes eng rest input w2
      in ((name agentConfig, res) # outcomes, w3))"

definition runParallelAgents :: "engine \<Rightarrow> agent_spec list \<Rightarrow> string \<Rightarrow> world \<Rightarrow> (string, agent_result) js_map \<times> world" where
  "runParallelAgents eng agentList input w =
     (let (outcomes, w') = parallel_outcomes eng agentList input w
      in (foldl (\<lambda>results (n, res). map_set n res results) [] outcomes, w'))"

definition option_line :: "nat \<times> string \<Rightarrow> string" where
  "option_line p = string_of_nat (fst p + 1) @ ''. '' @ snd p"

definition votingPrompt :: "string \<Rightarrow> string list \<Rightarrow> string" where
  "votingPrompt question options =
     trim (''\<newline>'' @ question @
       ''\<newline>\<newline>Please choose ONE of the following options and explain your reasoning:\<newline>'' @
       join ''\<newline>'' (map option_line (enumerate 0 options)) @
       ''\<newline>\<newline>Respond with your choice number first, then your reasoning.\<newline>  '')"

text \<open>The callback of \<open>results.forEach\<close>: one agent's vote, when it has one.\<close>

definition parse_vote :: "string list \<Rightarrow> (string, string) js_map \<Rightarrow> string \<times> agent_result \<Rightarrow> (string, string) js_map" where
  "parse_vote options votes entry =
     (case entry of (agentName, res) \<Rightarrow>
        (case result res of
           None \<Rightarrow> votes
         | Some txt \<Rightarrow>
             if success res \<and> txt \<noteq> [] then
               (case match_leading_digits txt of
                  None \<Rightarrow> votes
                | Some digits \<Rightarrow>
                    (let choiceIndex = parseInt digits - 1
                     in if choiceIndex \<ge> 0 \<and> choiceIndex < int (length options)
                        then map_set agentName (options ! nat choiceIndex) votes
                        else votes))
             else votes))"

text \<open>The callback of \<open>votes.forEach\<close>: \<open>(voteCounts.get(vote) || 0) + 1\<close>.\<close>

definition count_vote :: "(string, nat) js_map \<Rightarrow> string \<Rightarrow> (string, nat) js_map" where
  "count_vote voteCounts vote =
     map_set vote ((case map_get voteCounts vote of None \<Rightarrow> 0 | Some c \<Rightarrow> c) + 1) voteCounts"

text \<open>The callback of \<open>voteCounts.forEach\<close>; the state is \<open>winner\<close> and \<open>maxVotes\<close>.\<close>

definition find_winner :: "string option \<times> nat \<Rightarrow> string \<times> nat \<Rightarrow> string option \<times> nat" where
  "find_winner st entry =
     (case st of (winner, maxVotes) \<Rightarrow>
        (case entry of (opt, count) \<Rightarrow>
           if count > maxVotes then (Some opt, count) else (winner, maxVotes)))"

text \<open>\<open>options[0]\<close> is \<open>undefined\<close>, here \<open>None\<close>, on an empty array.\<close>

definition first_option :: "string list \<Rightarrow> string option" where
  "first_option options = (case options of [] \<Rightarrow> None | opt # _ \<Rightarrow> Some opt)"

text \<open>The three passes of \<open>runConsensusAgents\<close>: parse the votes, count them, find the winner.\<close>

definition parse_votes :: "string list \<Rightarrow> (string, agent_result) js_map \<Rightarrow> (string, string) js_map" where
  "parse_votes options results = foldl (parse_vote options) [] results"

definition count_votes :: "(string, string) js_map \<Rightarrow> (string, nat) js_map" where
  "count_votes votes = foldl count_vote [] (map snd votes)"

definition pick_winner :: "string list \<Rightarrow> (string, nat) js_map \<Rightarrow> string option" where
  "pick_winner options voteCounts = fst (foldl find_winner (first_option options, 0) voteCounts)"

definition runConsensusAgents :: "engine \<Rightarrow> agent_spec list \<Rightarrow> string \<Rightarrow> string list \<Rightarrow> world \<Rightarrow> (string option \<times> (string, string) js_map) \<times> world" where
  "runConsensusAgents eng agentList question options w =
     (let (results, w') = runParallelAgents eng agentList (votingPrompt question options) w;
          votes = parse_votes options results;
          voteCounts = count_votes votes;
          winner = pick_winner options voteCounts
      in ((winner, votes), w'))"

text \<open>
  The next stage's input: \<open>stage.transform ? stage.transform(result.result || "") :
  result.result || ""\<close>.
\<close>

definition next_input :: "pipeline_stage \<Rightarrow> agent_result \<Rightarrow> thrown + string" where
  "next_input stage res =
     (case transform stage of
        Some f \<Rightarrow> f (or_empty (result res))
      | None \<Rightarrow> Inr (or_empty (result res)))"

text \<open>
  The loop of \<open>runPipeline\<close>, over the stages still to run. \<open>runPipeline\<close> has no \<open>try\<close>:
  a value thrown by a transform leaves the function.
\<close>

fun pipeline_loop :: "engine \<Rightarrow> pipeline_stage list \<Rightarrow> string \<Rightarrow> agent_result \<Rightarrow> (string, agent_result) js_map \<Rightarrow> world \<Rightarrow> (thrown + agent_result \<times> (string, agent_result) js_map) \<times> world" where
  "pipeline_loop eng [] currentInput finalResult stageResults w =
     (Inr (finalResult, stageResults), w)"
| "pipeline_loop eng (stage # rest) currentInput finalResult stageResults w =
     (let (agent, w1) = createAgent (name stage) (systemPrompt stage) w;
          (res, agent', w2) = run eng agent currentInput w1;
          stageResults' = map_set (name stage) res stageResults
      in if \<not> success res then (Inr (res, stageResults'), w2)
         else (case next_input stage res of
                 Inl e \<Rightarrow> (Inl e, w2)
               | Inr input' \<Rightarrow> pipeline_loop eng rest input' res stageResults' w2))"

definition runPipeline :: "engine \<Rightarrow> pipeline_stage list \<Rightarrow> string \<Rightarrow> world \<Rightarrow> (thrown + agent_result \<times> (string, agent_result) js_map) \<times> world" where
  "runPipeline eng stages initialInput w =
     pipeline_loop eng stages initialInput (failure ''No stages executed'') [] w"

definition agent_line :: "sub_agent \<Rightarrow> string" where
  "agent_line a = ''- '' @ name a @ '': '' @ description a"

definition enhancedPrompt :: "string \<Rightarrow> sub_agent list \<Rightarrow> string \<Rightarrow> string" where
  "enhancedPrompt supervisorPrompt subAgents task =
     trim (''\<newline>'' @ supervisorPrompt @
       ''\<newline>\<newline>You have access to the following specialized agents:\<newline>'' @
       join ''\<newline>'' (map agent_line subAgents) @
       ''\<newline>\<newline>When you need to delegate a task, describe which agent should handle it and what they should do.\<newline>The system will execute the delegation and return the results.\<newline>\<newline>Task: '' @
       task @ ''\<newline>  '')"

definition runWithSupervisor :: "engine \<Rightarrow> string \<Rightarrow> sub_agent list \<Rightarrow> string \<Rightarrow> world \<Rightarrow> agent_result \<times> world" where
  "runWithSupervisor eng supervisorPrompt subAgents task w =
     (let (supervisor, w1) = createAgent ''supervisor'' (enhancedPrompt supervisorPrompt subAgents task) w;
          (res, supervisor', w2) = run eng supervisor task w1
      in (res, w2))"

section \<open>Notions used to state the properties\<close>

text \<open>
  What a strategy does with one \<open>{ name, systemPrompt }\<close> object: the configuration that
  \<open>createAgent\<close> hands to the constructor, the request that the fresh agent's \<open>run\<close> sends,
  and the \<open>AgentResult\<close> that \<open>run\<close> makes of an outcome.
\<close>

definition spec_config :: "'a agent_spec_scheme \<Rightarrow> agent_config" where
  "spec_config s =
     \<lparr> name = name s, systemPrompt = systemPrompt s, model = None, maxTurns = None,
       permissionMode = None, allowedTools = None, disallowedTools = None,
       mcpServers = None \<rparr>"

definition spec_params :: "'a agent_spec_scheme \<Rightarrow> string \<Rightarrow> query_params" where
  "spec_params s prompt =
     run_params \<lparr> config = with_defaults (spec_config s), agent_sessionId = None \<rparr> prompt"

definition outcome_result :: "query_outcome \<Rightarrow> agent_result" where
  "outcome_result out =
     (case raised out of
        None \<Rightarrow> snd (for_await (events out) (None, failure ''No result received''))
      | Some e \<Rightarrow> catch_result e)"

text \<open>
  The engine's answer to a fresh agent made from a specification, and the world after
  that agent was constructed and its query answered.
\<close>

definition spec_outcome :: "engine \<Rightarrow> 'a agent_spec_scheme \<Rightarrow> string \<Rightarrow> world \<Rightarrow> query_outcome" where
  "spec_outcome eng s prompt w = eng (queries w) (spec_params s prompt)"

definition after_run :: "'a agent_spec_scheme \<Rightarrow> string \<Rightarrow> query_outcome \<Rightarrow> world \<Rightarrow> world" where
  "after_run s prompt out w =
     w\<lparr> constructed := constructed w @ [spec_config s],
        queries := queries w @ [(spec_params s prompt, out)] \<rparr>"

text \<open>The wrapper that \<open>runSequentialChain\<close> puts around a stage's output.\<close>

definition chain_input :: "string \<Rightarrow> string" where
  "chain_input txt =
     ''Previous agent output:\<newline>'' @ txt @ ''\<newline>\<newline>Please continue with your task.''"

text \<open>
  The queries of a sequential chain and of a pipeline as lists, from the history the engine
  has seen: the chain stops after the first failed result, the pipeline also when a
  transform throws.
\<close>

fun chain_trace :: "engine \<Rightarrow> agent_spec list \<Rightarrow> string \<Rightarrow> (query_params \<times> query_outcome) list \<Rightarrow> (query_params \<times> query_outcome) list" where
  "chain_trace eng [] inp h = []"
| "chain_trace eng (a # rest) inp h =
     (let p = spec_params a inp; out = eng h p; res = outcome_result out
      in (p, out) #
         (if \<not> success res then []
          else chain_trace eng rest (chain_input (template_string (result res))) (h @ [(p, out)])))"

fun pipeline_trace :: "engine \<Rightarrow> pipeline_stage list \<Rightarrow> string \<Rightarrow> (query_params \<times> query_outcome) list \<Rightarrow> (query_params \<times> query_outcome) list" where
  "pipeline_trace eng [] inp h = []"
| "pipeline_trace eng (stage # rest) inp h =
     (let p = spec_params stage inp; out = eng h p; res = outcome_result out
      in (p, out) #
         (if \<not> success res then []
          else (case next_input stage res of
                  Inl e \<Rightarrow> []
                | Inr inp' \<Rightarrow> pipeline_trace eng rest inp' (h @ [(p, out)]))))"

text \<open>The queries of a parallel fan-out: one per specification, all with the same input.\<close>

fun parallel_trace :: "engine \<Rightarrow> agent_spec list \<Rightarrow> string \<Rightarrow> (query_params \<times> query_outcome) list \<Rightarrow> (query_params \<times> query_outcome) list" where
  "parallel_trace eng [] inp h = []"
| "parallel_trace eng (a # rest) inp h =
     (let p = spec_params a inp; out = eng h p
      in (p, out) # parallel_trace eng rest inp (h @ [(p, out)]))"

text \<open>The keys of a \<open>Map\<close> filled from a list: each key once, in the order of first occurrence.\<close>

definition first_occurrences :: "'a list \<Rightarrow> 'a list" where
  "first_occurrences xs = rev (remdups (rev xs))"

text \<open>
  The vote of a result in the words of the specification: the result is a success, its
  text starts with a run of decimal digits, that run denotes a number \<open>n\<close> between 1 and
  the number of options, and the vote is the \<open>n\<close>-th option.
\<close>

definition digit_nat :: "char \<Rightarrow> nat" where
  "digit_nat c = of_char c - 48"

fun decimal_value :: "char list \<Rightarrow> nat" where
  "decimal_value [] = 0"
| "decimal_value (c # cs) = digit_nat c * 10 ^ length cs + decimal_value cs"

definition valid_vote :: "string list \<Rightarrow> agent_result \<Rightarrow> string option" where
  "valid_vote options res =
     (case result res of
        None \<Rightarrow> None
      | Some txt \<Rightarrow>
          (let ds = takeWhile is_digit txt; n = decimal_value ds
           in if success res \<and> ds \<noteq> [] \<and> 1 \<le> n \<and> n \<le> length options
              then Some (options ! (n - 1)) else None))"

text \<open>The entry of the vote map that an entry of the result map gives, when it votes.\<close>

definition vote_entry :: "string list \<Rightarrow> string \<times> agent_result \<Rightarrow> (string \<times> string) option" where
  "vote_entry options e = map_option (Pair (fst e)) (valid_vote options (snd e))"

text \<open>The tally of an option: the number of agents whose vote it is.\<close>

definition tally :: "(string, string) js_map \<Rightarrow> string \<Rightarrow> nat" where
  "tally votes opt = length (filter (\<lambda>e. snd e = opt) votes)"

text \<open>The queries issued between two worlds.\<close>

definition new_queries :: "world \<Rightarrow> world \<Rightarrow> (query_params \<times> query_outcome) list" where
  "new_queries w w' = drop (length (queries w)) (queries w')"

text \<open>The message is a result message: \<open>message.type === "result"\<close>.\<close>

definition is_result :: "sdk_message \<Rightarrow> bool" where
  "is_result m = (case m of SDKResultMessage _ \<Rightarrow> True | _ \<Rightarrow> False)"

text \<open>What the engine answers to the query that \<open>run\<close> issues.\<close>

definition engine_outcome :: "engine \<Rightarrow> base_agent \<Rightarrow> string \<Rightarrow> world \<Rightarrow> query_outcome" where
  "engine_outcome eng a prompt w = eng (queries w) (run_params a prompt)"

section \<open>Scripted engines and inputs for the concrete checks\<close>

definition success_message :: "string \<Rightarrow> string \<Rightarrow> sdk_result_message" where
  "success_message sid txt =
     \<lparr> subtype = ''success'', session_id = sid, num_turns = 1, result_text = txt,
       input_tokens = 12, output_tokens = 7, total_cost_usd = 0, msg_errors = None \<rparr>"

definition error_message :: "string \<Rightarrow> string \<Rightarrow> sdk_result_message" where
  "error_message sid code =
     \<lparr> subtype = code, session_id = sid, num_turns = 3, result_text = [],
       input_tokens = 12, output_tokens = 0, total_cost_usd = 0,
       msg_errors = Some [''turn budget exhausted''] \<rparr>"

text \<open>
  An engine whose answer is scripted by the system prompt of the request: \<open>throw\<close> makes the
  query throw an \<open>Error\<close>, \<open>reject\<close> makes the stream throw a value that is no \<open>Error\<close> after
  its first message, \<open>fail\<close> ends with a non-success result, \<open>silent\<close> ends with no result
  at all, and any other system prompt is returned as the result text of a successful turn.
\<close>

definition scripted_engine :: engine where
  "scripted_engine history p =
     (if q_systemPrompt p = ''throw'' then
        \<lparr> events = [], raised = Some (ErrorObject ''network down'') \<rparr>
      else if q_systemPrompt p = ''reject'' then
        \<lparr> events = [SDKSystemMessage], raised = Some OtherThrown \<rparr>
      else if q_systemPrompt p = ''fail'' then
        \<lparr> events = [SDKSystemMessage, SDKAssistantMessage,
                     SDKResultMessage (error_message ''s-fail'' ''error_max_turns'')],
          raised = None \<rparr>
      else if q_systemPrompt p = ''silent'' then
        \<lparr> events = [SDKSystemMessage, SDKAssistantMessage], raised = None \<rparr>
      else
        \<lparr> events = [SDKSystemMessage, SDKAssistantMessage,
                     SDKResultMessage (success_message ''s-ok'' (q_systemPrompt p))],
          raised = None \<rparr>)"

definition w0 :: world where
  "w0 = \<lparr> constructed = [], queries = [] \<rparr>"

definition fresh_agent :: "string \<Rightarrow> base_agent" where
  "fresh_agent sp = fst (createAgent ''agent'' sp w0)"

text \<open>
  Payloads for \<open>handoff\<close>: a text, which \<open>JSON.stringify\<close> prints in quotes (the texts used
  here need no escapes), and an object that refers to itself, on which it throws.
\<close>

datatype payload = PlainText string | CyclicObject

definition payload_runtime :: "payload js_runtime" where
  "payload_runtime =
     \<lparr> truthy = (\<lambda>v. case v of PlainText t \<Rightarrow> t \<noteq> [] | CyclicObject \<Rightarrow> True),
       json_stringify = (\<lambda>v. case v of
           PlainText t \<Rightarrow> Inr (Some (CHR 0x22 # t @ [CHR 0x22]))
         | CyclicObject \<Rightarrow> Inl (ErrorObject ''Converting circular structure to JSON'')) \<rparr>"

definition two_agents :: "payload orchestrator \<times> world" where
  "two_agents =
     (let (o1, w1) = registerAgent (spec_config \<lparr> name = ''researcher'', systemPrompt = ''facts'' \<rparr>)
                       new_AgentOrchestrator w0;
          (o2, w2) = registerAgent (spec_config \<lparr> name = ''writer'', systemPrompt = ''fail'' \<rparr>) o1 w1
      in (o2, w2))"

definition started :: "payload orchestrator \<times> world" where
  "started = snd (execute scripted_engine ''researcher'' ''find facts'' (fst two_agents) (snd two_agents))"


definition three :: "agent_spec list" where
  "three = [\<lparr>name = ''a1'', systemPrompt = ''x''\<rparr>, \<lparr>name = ''a2'', systemPrompt = ''fail''\<rparr>, \<lparr>name = ''a3'', systemPrompt = ''z''\<rparr>]"

definition two_ok :: "agent_spec list" where
  "two_ok = [\<lparr>name = ''a1'', systemPrompt = ''x''\<rparr>, \<lparr>name = ''a2'', systemPrompt = ''y''\<rparr>]"

definition stages3 :: "pipeline_stage list" where
  "stages3 =
     [\<lparr> name = ''p1'', systemPrompt = ''alpha'', transform = Some (\<lambda>s. Inr (''T:'' @ s)) \<rparr>,
      \<lparr> name = ''p2'', systemPrompt = ''beta'', transform = None \<rparr>,
      \<lparr> name = ''p3'', systemPrompt = ''gamma'', transform = None \<rparr>]"

definition dup :: "agent_spec list" where
  "dup = [\<lparr>name = ''a'', systemPrompt = ''x''\<rparr>, \<lparr>name = ''b'', systemPrompt = ''fail''\<rparr>,
          \<lparr>name = ''a'', systemPrompt = ''y''\<rparr>]"

definition delegates :: "sub_agent list" where
  "delegates =
     [\<lparr> name = ''coder'', systemPrompt = ''throw'', description = ''writes code'' \<rparr>,
      \<lparr> name = ''tester'', systemPrompt = ''fail'', description = ''runs the tests'' \<rparr>]"

definition five_voters :: "agent_spec list" where
  "five_voters =
     [\<lparr> name = ''v1'', systemPrompt = ''1'' \<rparr>,
      \<lparr> name = ''v2'', systemPrompt = ''2. B is best'' \<rparr>,
      \<lparr> name = ''v3'', systemPrompt = ''2'' \<rparr>,
      \<lparr> name = ''v4'', systemPrompt = ''3 because'' \<rparr>,
      \<lparr> name = ''v5'', systemPrompt = ''I cannot decide'' \<rparr>]"

definition split_voters :: "agent_spec list" where
  "split_voters =
     [\<lparr> name = ''first'', systemPrompt = ''2'' \<rparr>,
      \<lparr> name = ''second'', systemPrompt = ''1'' \<rparr>]"

section \<open>\<open>BaseAgent.run\<close>\<close>

lemmas fixture_defs = scripted_engine_def fresh_agent_def createAgent_def new_BaseAgent_def
  with_defaults_def w0_def success_message_def error_message_def engine_outcome_def run_params_def

lemma for_await_append: "for_await (xs @ ys) st = for_await ys (for_await xs st)"
  by (induction xs st rule: for_await.induct) simp_all

lemma for_await_no_result:
  "\<forall>e\<in>set xs. \<not> is_result e \<Longrightarrow> for_await xs st = st"
  by (induction xs st rule: for_await.induct) (simp_all add: is_result_def)

lemma for_await_last_result:
  assumes "\<forall>e\<in>set post. \<not> is_result e"
  shows "for_await (pre @ SDKResultMessage m # post) st = (Some (session_id m), result_of_message m)"
  using assms by (cases "for_await pre st") (simp add: for_await_append for_await_no_result)

text \<open>Either no result message was delivered, or there is a last one.\<close>

lemma for_await_cases:
  "(\<forall>e\<in>set xs. \<not> is_result e) \<or>
   (\<exists>pre m post. xs = pre @ SDKResultMessage m # post \<and> (\<forall>e\<in>set post. \<not> is_result e))"
proof (induction xs rule: rev_induct)
  case Nil
  then show ?case by simp
next
  case (snoc x xs)
  show ?case
  proof (cases "is_result x")
    case True
    then obtain m where "x = SDKResultMessage m"
      by (cases x) (simp_all add: is_result_def)
    then have "xs @ [x] = xs @ SDKResultMessage m # [] \<and> (\<forall>e\<in>set []. \<not> is_result e)"
      by simp
    then show ?thesis by blast
  next
    case False
    from snoc.IH show ?thesis
    proof
      assume "\<forall>e\<in>set xs. \<not> is_result e"
      with False show ?thesis by simp
    next
      assume "\<exists>pre m post. xs = pre @ SDKResultMessage m # post \<and> (\<forall>e\<in>set post. \<not> is_result e)"
      then obtain pre m post where xs: "xs = pre @ SDKResultMessage m # post"
        and post: "\<forall>e\<in>set post. \<not> is_result e" by blast
      from xs have "xs @ [x] = pre @ SDKResultMessage m # (post @ [x])" by simp
      moreover from post False have "\<forall>e\<in>set (post @ [x]). \<not> is_result e" by simp
      ultimately show ?thesis by blast
    qed
  qed
qed

lemma run_eq:
  "run eng a prompt w =
     (let out = engine_outcome eng a prompt w;
          st = for_await (events out) (agent_sessionId a, failure ''No result received'')
      in ((case raised out of None \<Rightarrow> snd st | Some e \<Rightarrow> catch_result e),
          a\<lparr> agent_sessionId := fst st \<rparr>,
          w\<lparr> queries := queries w @ [(run_params a prompt, out)] \<rparr>))"
  by (simp add: run_def run_try_def engine_outcome_def Let_def split: option.splits)

lemma result_of_message_wf:
  "success (result_of_message m) \<longleftrightarrow> subtype m = ''success''"
  "error (result_of_message m) = (if subtype m = ''success'' then None else Some (subtype m))"
  "result (result_of_message m) = (if subtype m = ''success'' then Some (result_text m) else None)"
  "sessionId (result_of_message m) = Some (session_id m)"
  by (simp_all add: result_of_message_def)

text \<open>
  C5. \<open>run\<close> returns an \<open>AgentResult\<close> for every outcome of the query (the model's \<open>run\<close>
  has no exceptional result: its \<open>catch\<close> turns every thrown value into a result), and the
  result is well formed: a success has a result text and no error, a failure has an error
  and no result text. When the stream ends normally and its last result message is not a
  success, the result is a failure whose error is that message's subtype, with the
  message's errors; when it ends normally with no result message, the result is
  \<open>success = false\<close> with the error \<open>No result received\<close>; when the query or its stream
  throws an \<open>Error\<close>, it is \<open>success = false\<close> with that error's message, and with
  \<open>Unknown error\<close> for any other thrown value. In these three cases the result carries no
  other field.
\<close>

theorem run_total_and_maps_outcome:
  fixes eng :: engine
  shows
  "let out = engine_outcome eng a prompt w; r = fst (run eng a prompt w) in
     (success r \<longrightarrow> error r = None \<and> result r \<noteq> None) \<and>
     (\<not> success r \<longrightarrow> error r \<noteq> None \<and> result r = None) \<and>
     (\<forall>pre m post.
        raised out = None \<and> events out = pre @ SDKResultMessage m # post \<and>
        (\<forall>e\<in>set post. \<not> is_result e) \<and> subtype m \<noteq> ''success'' \<longrightarrow>
        r = \<lparr> success = False, result = None, sessionId = Some (session_id m),
              numTurns = Some (num_turns m), usage = None, totalCostUsd = None,
              error = Some (subtype m), errors = msg_errors m \<rparr>) \<and>
     (raised out = None \<and> (\<forall>e\<in>set (events out). \<not> is_result e) \<longrightarrow>
        r = \<lparr> success = False, result = None, sessionId = None, numTurns = None,
              usage = None, totalCostUsd = None, error = Some ''No result received'',
              errors = None \<rparr>) \<and>
     (\<forall>msg. raised out = Some (ErrorObject msg) \<longrightarrow>
        r = \<lparr> success = False, result = None, sessionId = None, numTurns = None,
              usage = None, totalCostUsd = None, error = Some msg, errors = None \<rparr>) \<and>
     (raised out = Some OtherThrown \<longrightarrow>
        r = \<lparr> success = False, result = None, sessionId = None, numTurns = None,
              usage = None, totalCostUsd = None, error = Some ''Unknown error'',
              errors = None \<rparr>)"
proof -
  define out where "out = engine_outcome eng a prompt w"
  define st where "st = for_await (events out) (agent_sessionId a, failure ''No result received'')"
  define r where "r = fst (run eng a prompt w)"
  have r: "r = (case raised out of None \<Rightarrow> snd st | Some e \<Rightarrow> catch_result e)"
    by (cases "raised out") (simp_all add: r_def run_eq Let_def out_def st_def)
  have wf_st: "(success (snd st) \<longrightarrow> error (snd st) = None \<and> result (snd st) \<noteq> None) \<and>
     (\<not> success (snd st) \<longrightarrow> error (snd st) \<noteq> None \<and> result (snd st) = None)"
    using for_await_cases[of "events out"]
  proof
    assume "\<forall>e\<in>set (events out). \<not> is_result e"
    then show ?thesis by (simp add: st_def for_await_no_result failure_def)
  next
    assume "\<exists>pre m post. events out = pre @ SDKResultMessage m # post \<and> (\<forall>e\<in>set post. \<not> is_result e)"
    then obtain pre m post where "events out = pre @ SDKResultMessage m # post"
      and "\<forall>e\<in>set post. \<not> is_result e" by blast
    then have "snd st = result_of_message m"
      by (simp add: st_def for_await_last_result)
    then show ?thesis by (simp add: result_of_message_wf)
  qed
  have wf: "(success r \<longrightarrow> error r = None \<and> result r \<noteq> None) \<and>
     (\<not> success r \<longrightarrow> error r \<noteq> None \<and> result r = None)"
  proof (cases "raised out")
    case None
    with wf_st show ?thesis by (simp add: r)
  next
    case (Some e)
    then show ?thesis by (simp add: r catch_result_def failure_def)
  qed
  have nonsucc: "\<forall>pre m post.
        raised out = None \<and> events out = pre @ SDKResultMessage m # post \<and>
        (\<forall>e\<in>set post. \<not> is_result e) \<and> subtype m \<noteq> ''success'' \<longrightarrow>
        r = \<lparr> success = False, result = None, sessionId = Some (session_id m),
              numTurns = Some (num_turns m), usage = None, totalCostUsd = None,
              error = Some (subtype m), errors = msg_errors m \<rparr>"
    by (simp add: r st_def for_await_last_result result_of_message_def)
  have none: "raised out = None \<and> (\<forall>e\<in>set (events out). \<not> is_result e) \<longrightarrow>
        r = \<lparr> success = False, result = None, sessionId = None, numTurns = None,
              usage = None, totalCostUsd = None, error = Some ''No result received'',
              errors = None \<rparr>"
    by (simp add: r st_def for_await_no_result failure_def)
  have thr: "(\<forall>msg. raised out = Some (ErrorObject msg) \<longrightarrow>
        r = \<lparr> success = False, result = None, sessionId = None, numTurns = None,
              usage = None, totalCostUsd = None, error = Some msg, errors = None \<rparr>) \<and>
     (raised out = Some OtherThrown \<longrightarrow>
        r = \<lparr> success = False, result = None, sessionId = None, numTurns = None,
              usage = None, totalCostUsd = None, error = Some ''Unknown error'',
              errors = None \<rparr>)"
    by (simp add: r catch_result_def failure_def)
  from wf nonsucc none thr show ?thesis
    unfolding Let_def out_def[symmetric] r_def[symmetric] by blast
qed

theorem run_total_witness:
  "fst (run scripted_engine (fresh_agent ''fail'') ''hi'' w0) =
     \<lparr> success = False, result = None, sessionId = Some ''s-fail'', numTurns = Some 3,
       usage = None, totalCostUsd = None, error = Some ''error_max_turns'',
       errors = Some [''turn budget exhausted''] \<rparr> \<and>
   fst (run scripted_engine (fresh_agent ''silent'') ''hi'' w0) =
     \<lparr> success = False, result = None, sessionId = None, numTurns = None, usage = None,
       totalCostUsd = None, error = Some ''No result received'', errors = None \<rparr> \<and>
   fst (run scripted_engine (fresh_agent ''throw'') ''hi'' w0) =
     \<lparr> success = False, result = None, sessionId = None, numTurns = None, usage = None,
       totalCostUsd = None, error = Some ''network down'', errors = None \<rparr> \<and>
   fst (run scripted_engine (fresh_agent ''reject'') ''hi'' w0) =
     \<lparr> success = False, result = None, sessionId = None, numTurns = None, usage = None,
       totalCostUsd = None, error = Some ''Unknown error'', errors = None \<rparr>"
proof -
  note t = run_total_and_maps_outcome [where eng = scripted_engine and prompt = "''hi''" and w = w0,
      unfolded Let_def]
  have 1: "engine_outcome scripted_engine (fresh_agent ''fail'') ''hi'' w0 =
     \<lparr> events = [SDKSystemMessage, SDKAssistantMessage] @
         SDKResultMessage (error_message ''s-fail'' ''error_max_turns'') # [], raised = None \<rparr>"
    by (simp add: fixture_defs)
  have 2: "engine_outcome scripted_engine (fresh_agent ''silent'') ''hi'' w0 =
     \<lparr> events = [SDKSystemMessage, SDKAssistantMessage], raised = None \<rparr>"
    by (simp add: fixture_defs)
  have 3: "engine_outcome scripted_engine (fresh_agent ''throw'') ''hi'' w0 =
     \<lparr> events = [], raised = Some (ErrorObject ''network down'') \<rparr>"
    by (simp add: fixture_defs)
  have 4: "engine_outcome scripted_engine (fresh_agent ''reject'') ''hi'' w0 =
     \<lparr> events = [SDKSystemMessage], raised = Some OtherThrown \<rparr>"
    by (simp add: fixture_defs)
  from t [of "fresh_agent ''fail''"] 1
  have "fst (run scripted_engine (fresh_agent ''fail'') ''hi'' w0) =
     \<lparr> success = False, result = None, sessionId = Some ''s-fail'', numTurns = Some 3,
       usage = None, totalCostUsd = None, error = Some ''error_max_turns'',
       errors = Some [''turn budget exhausted''] \<rparr>"
    apply (elim conjE)
    apply (drule spec[of _ "[SDKSystemMessage, SDKAssistantMessage]"])
    apply (drule spec[of _ "error_message ''s-fail'' ''error_max_turns''"])
    apply (drule spec[of _ "[]"])
    apply (simp add: error_message_def)
    done
  moreover from t [of "fresh_agent ''silent''"] 2
  have "fst (run scripted_engine (fresh_agent ''silent'') ''hi'' w0) =
     \<lparr> success = False, result = None, sessionId = None, numTurns = None, usage = None,
       totalCostUsd = None, error = Some ''No result received'', errors = None \<rparr>"
    by (simp add: is_result_def)
  moreover from t [of "fresh_agent ''throw''"] 3
  have "fst (run scripted_engine (fresh_agent ''throw'') ''hi'' w0) =
     \<lparr> success = False, result = None, sessionId = None, numTurns = None, usage = None,
       totalCostUsd = None, error = Some ''network down'', errors = None \<rparr>"
    by simp
  moreover from t [of "fresh_agent ''reject''"] 4
  have "fst (run scripted_engine (fresh_agent ''reject'') ''hi'' w0) =
     \<lparr> success = False, result = None, sessionId = None, numTurns = None, usage = None,
       totalCostUsd = None, error = Some ''Unknown error'', errors = None \<rparr>"
    by simp
  ultimately show ?thesis by simp
qed

text \<open>
  C9. When \<open>run\<close> returns a success, the stream ended normally, its last result message is
  a success, and both the agent's session reference after the call and the result's
  \<open>sessionId\<close> are that message's session identifier.
\<close>

theorem run_success_session:
  fixes eng :: engine
  assumes "success (fst (run eng a prompt w))"
  shows "\<exists>pre m post.
           events (engine_outcome eng a prompt w) = pre @ SDKResultMessage m # post \<and>
           (\<forall>e\<in>set post. \<not> is_result e) \<and>
           raised (engine_outcome eng a prompt w) = None \<and>
           subtype m = ''success'' \<and>
           agent_sessionId (fst (snd (run eng a prompt w))) = Some (session_id m) \<and>
           sessionId (fst (run eng a prompt w)) = Some (session_id m)"
proof -
  define out where "out = engine_outcome eng a prompt w"
  define st where "st = for_await (events out) (agent_sessionId a, failure ''No result received'')"
  have r: "fst (run eng a prompt w) = (case raised out of None \<Rightarrow> snd st | Some e \<Rightarrow> catch_result e)"
    and a': "agent_sessionId (fst (snd (run eng a prompt w))) = fst st"
    by (cases "raised out"; simp add: run_eq Let_def out_def st_def)+
  from assms have nr: "raised out = None"
    by (cases "raised out") (simp_all add: r catch_result_def failure_def)
  with assms r have s: "success (snd st)" by simp
  from for_await_cases[of "events out"] show ?thesis
  proof
    assume "\<forall>e\<in>set (events out). \<not> is_result e"
    then have "snd st = failure ''No result received''"
      by (simp add: st_def for_await_no_result)
    with s show ?thesis by (simp add: failure_def)
  next
    assume "\<exists>pre m post. events out = pre @ SDKResultMessage m # post \<and> (\<forall>e\<in>set post. \<not> is_result e)"
    then obtain pre m post where ev: "events out = pre @ SDKResultMessage m # post"
      and post: "\<forall>e\<in>set post. \<not> is_result e" by blast
    then have st: "st = (Some (session_id m), result_of_message m)"
      by (simp add: st_def for_await_last_result)
    with s have "subtype m = ''success''" by (simp add: result_of_message_wf)
    with ev post nr st show ?thesis
      unfolding out_def[symmetric] by (auto simp add: r a' result_of_message_wf)
  qed
qed

theorem run_success_session_witness:
  "success (fst (run scripted_engine (fresh_agent ''4 is my answer'') ''hi'' w0)) \<and>
   agent_sessionId (fst (snd (run scripted_engine (fresh_agent ''4 is my answer'') ''hi'' w0))) = Some ''s-ok''"
proof -
  have s: "success (fst (run scripted_engine (fresh_agent ''4 is my answer'') ''hi'' w0))"
    by (simp add: run_eq fixture_defs result_of_message_def Let_def)
  from run_success_session [OF s] obtain pre m post where
    ev: "events (engine_outcome scripted_engine (fresh_agent ''4 is my answer'') ''hi'' w0) = pre @ SDKResultMessage m # post"
    and post: "\<forall>e\<in>set post. \<not> is_result e"
    and sid: "agent_sessionId (fst (snd (run scripted_engine (fresh_agent ''4 is my answer'') ''hi'' w0))) = Some (session_id m)"
    by blast
  have "events (engine_outcome scripted_engine (fresh_agent ''4 is my answer'') ''hi'' w0) =
      [SDKSystemMessage, SDKAssistantMessage, SDKResultMessage (success_message ''s-ok'' ''4 is my answer'')]"
    by (simp add: fixture_defs)
  with ev post have "m = success_message ''s-ok'' ''4 is my answer''"
    by (cases post rule: rev_cases) (auto simp: is_result_def)
  with s sid show ?thesis by (simp add: success_message_def)
qed

section \<open>A fresh agent and its one run\<close>

lemma snd_for_await: "snd (for_await xs (sid, r)) = snd (for_await xs (sid', r))"
  by (induction xs "(sid, r)" arbitrary: sid sid' r rule: for_await.induct) simp_all

lemma run_result: "fst (run eng a prompt w) = outcome_result (engine_outcome eng a prompt w)"
  by (cases "raised (engine_outcome eng a prompt w)")
     (simp_all add: run_eq Let_def outcome_result_def snd_for_await[of _ "agent_sessionId a" _ None])

lemma run_world:
  "snd (snd (run eng a prompt w)) =
     w\<lparr> queries := queries w @ [(run_params a prompt, engine_outcome eng a prompt w)] \<rparr>"
  by (simp add: run_eq Let_def)

lemma outcome_result_wf:
  "success (outcome_result out) \<Longrightarrow> \<exists>txt. result (outcome_result out) = Some txt"
proof -
  assume s: "success (outcome_result out)"
  then have nr: "raised out = None"
    by (cases "raised out") (simp_all add: outcome_result_def catch_result_def failure_def)
  from for_await_cases[of "events out"] show ?thesis
  proof
    assume "\<forall>e\<in>set (events out). \<not> is_result e"
    with s nr show ?thesis
      by (simp add: outcome_result_def for_await_no_result failure_def)
  next
    assume "\<exists>pre m post. events out = pre @ SDKResultMessage m # post \<and> (\<forall>e\<in>set post. \<not> is_result e)"
    then obtain pre m post where "events out = pre @ SDKResultMessage m # post"
      and "\<forall>e\<in>set post. \<not> is_result e" by blast
    with nr have "outcome_result out = result_of_message m"
      by (simp add: outcome_result_def for_await_last_result)
    with s show ?thesis by (simp add: result_of_message_wf)
  qed
qed

text \<open>Constructing a fresh agent and running it once, as every strategy does.\<close>

lemma fresh_run:
  "(case createAgent (name s) (systemPrompt s) w of
      (agent, w1) \<Rightarrow> (case run eng agent prompt w1 of (res, agent', w2) \<Rightarrow> F res w2)) =
   F (outcome_result (spec_outcome eng s prompt w)) (after_run s prompt (spec_outcome eng s prompt w) w)"
proof -
  obtain agent w1 where c: "createAgent (name s) (systemPrompt s) w = (agent, w1)"
    by (cases "createAgent (name s) (systemPrompt s) w")
  then have agent: "agent = \<lparr> config = with_defaults (spec_config s), agent_sessionId = None \<rparr>"
    and w1: "w1 = w\<lparr> constructed := constructed w @ [spec_config s] \<rparr>"
    by (auto simp add: createAgent_def new_BaseAgent_def spec_config_def)
  have out: "engine_outcome eng agent prompt w1 = spec_outcome eng s prompt w"
    by (simp add: engine_outcome_def spec_outcome_def spec_params_def agent w1)
  obtain res agent' w2 where r: "run eng agent prompt w1 = (res, agent', w2)"
    by (cases "run eng agent prompt w1")
  from r run_result[of eng agent prompt w1] have res: "res = outcome_result (spec_outcome eng s prompt w)"
    by (simp add: out)
  from r run_world[of eng agent prompt w1]
  have "w2 = w1\<lparr> queries := queries w1 @ [(run_params agent prompt, spec_outcome eng s prompt w)] \<rparr>"
    by (simp add: out)
  then have w2: "w2 = after_run s prompt (spec_outcome eng s prompt w) w"
    by (simp add: after_run_def w1 spec_params_def agent)
  show ?thesis by (simp add: c r res w2)
qed

lemma sequential_loop_Cons:
  "sequential_loop eng (a # rest) inp acc w =
     (let out = spec_outcome eng a inp w; res = outcome_result out; w2 = after_run a inp out w
      in if \<not> success res then (acc @ [res], w2)
         else sequential_loop eng rest (chain_input (template_string (result res))) (acc @ [res]) w2)"
  by (simp add: fresh_run Let_def chain_input_def)

section \<open>Registry lookups\<close>


lemmas registry_defs = two_agents_def registerAgent_def new_AgentOrchestrator_def new_BaseAgent_def
  spec_config_def with_defaults_def w0_def

lemma started_state:
  "currentAgent (fst started) = Some ''researcher''"
  "handoffHistory (fst started) = []"
  "agents (fst started) ''nobody'' = None"
  "agents (fst started) ''writer'' =
     Some \<lparr> config = with_defaults (spec_config \<lparr> name = ''writer'', systemPrompt = ''fail'' \<rparr>),
            agent_sessionId = None \<rparr>"
  by (simp_all add: started_def execute_def registry_defs case_prod_unfold Let_def)



section \<open>Sequential chain and pipeline\<close>

lemma world_same [simp]: "w\<lparr> constructed := constructed w, queries := queries w \<rparr> = w"
  by simp

lemma sequential_loop_trace:
  "sequential_loop eng as inp acc w =
     (acc @ map (outcome_result \<circ> snd) (chain_trace eng as inp (queries w)),
      w\<lparr> constructed := constructed w @ map spec_config (take (length (chain_trace eng as inp (queries w))) as),
         queries := queries w @ chain_trace eng as inp (queries w) \<rparr>)"
proof (induction as arbitrary: inp acc w)
  case Nil
  show ?case by simp
next
  case (Cons a rest)
  show ?case
    by (simp add: sequential_loop_Cons Cons.IH Let_def after_run_def spec_outcome_def
        del: sequential_loop.simps)
qed

lemma chain_trace_length: "length (chain_trace eng as inp h) \<le> length as"
  by (induction as arbitrary: inp h) (simp_all add: Let_def)

lemma chain_trace_system:
  "map (q_systemPrompt \<circ> fst) (chain_trace eng as inp h) =
     map systemPrompt (take (length (chain_trace eng as inp h)) as)"
  by (induction as arbitrary: inp h)
     (simp_all add: Let_def spec_params_def run_params_def with_defaults_def spec_config_def)

lemma chain_trace_failure_last:
  "i < length (chain_trace eng as inp h) \<Longrightarrow>
   \<not> success (outcome_result (snd (chain_trace eng as inp h ! i))) \<Longrightarrow>
   length (chain_trace eng as inp h) = Suc i"
proof (induction as arbitrary: inp h i)
  case Nil
  then show ?case by simp
next
  case (Cons a rest)
  then show ?case
    by (cases i) (auto simp add: Let_def split: if_splits)
qed

lemma chain_trace_all_success:
  "\<forall>q\<in>set (chain_trace eng as inp h). success (outcome_result (snd q)) \<Longrightarrow>
   length (chain_trace eng as inp h) = length as"
  by (induction as arbitrary: inp h) (auto simp add: Let_def split: if_splits)

lemma chain_trace_first:
  "chain_trace eng as inp h \<noteq> [] \<Longrightarrow> q_prompt (fst (hd (chain_trace eng as inp h))) = inp"
  by (cases as) (simp_all add: Let_def spec_params_def run_params_def)

lemma chain_trace_next:
  "Suc i < length (chain_trace eng as inp h) \<Longrightarrow>
   q_prompt (fst (chain_trace eng as inp h ! Suc i)) =
     chain_input (template_string (result (outcome_result (snd (chain_trace eng as inp h ! i)))))"
proof (induction as arbitrary: inp h i)
  case Nil
  then show ?case by simp
next
  case (Cons a rest)
  let ?p = "spec_params a inp"
  let ?out = "eng h ?p"
  let ?res = "outcome_result ?out"
  let ?inp' = "chain_input (template_string (result ?res))"
  let ?t = "chain_trace eng rest ?inp' (h @ [(?p, ?out)])"
  from Cons.prems have s: "success ?res" and t: "chain_trace eng (a # rest) inp h = (?p, ?out) # ?t"
    by (auto simp add: Let_def split: if_splits)
  show ?case
  proof (cases i)
    case 0
    with Cons.prems t have "?t \<noteq> []" by auto
    then have "q_prompt (fst (hd ?t)) = ?inp'" by (rule chain_trace_first)
    with 0 \<open>?t \<noteq> []\<close> show ?thesis unfolding t by (simp add: hd_conv_nth)
  next
    case (Suc j)
    with Cons.prems t have "Suc j < length ?t" by simp
    from Cons.IH[OF this] Suc show ?thesis unfolding t by simp
  qed
qed

lemma runSequentialChain_trace:
  "runSequentialChain eng as inp w =
     (map (outcome_result \<circ> snd) (chain_trace eng as inp (queries w)),
      w\<lparr> constructed := constructed w @ map spec_config (take (length (chain_trace eng as inp (queries w))) as),
         queries := queries w @ chain_trace eng as inp (queries w) \<rparr>)"
  by (simp add: runSequentialChain_def sequential_loop_trace)

text \<open>
  C2. \<open>runSequentialChain\<close> returns at most one result per stage; a result that is a
  failure is the last one, so when stage \<open>k\<close> is the first to fail the list has exactly
  \<open>k\<close> entries; when every returned result is a success there is one per stage. With \<open>k\<close>
  results, exactly the agents of the first \<open>k\<close> stages were constructed, in order, and
  exactly \<open>k\<close> queries were issued, the \<open>i\<close>-th with the system prompt of stage \<open>i\<close> and
  with the \<open>i\<close>-th result as its outcome.
\<close>

theorem sequential_chain_stops_at_first_failure:
  fixes eng :: engine
  shows
  "let (results, w') = runSequentialChain eng agentList initialInput w; k = length results in
     k \<le> length agentList \<and>
     (\<forall>i<k. \<not> success (results ! i) \<longrightarrow> k = Suc i) \<and>
     ((\<forall>r\<in>set results. success r) \<longrightarrow> k = length agentList) \<and>
     constructed w' = constructed w @ map spec_config (take k agentList) \<and>
     queries w' = queries w @ new_queries w w' \<and>
     length (new_queries w w') = k \<and>
     map (q_systemPrompt \<circ> fst) (new_queries w w') = map systemPrompt (take k agentList) \<and>
     results = map (outcome_result \<circ> snd) (new_queries w w')"
proof -
  define T where "T = chain_trace eng agentList initialInput (queries w)"
  have 1: "length T \<le> length agentList"
    unfolding T_def by (rule chain_trace_length)
  have 2: "\<forall>i<length T. \<not> success (map (outcome_result \<circ> snd) T ! i) \<longrightarrow> length T = Suc i"
    unfolding T_def using chain_trace_failure_last by simp
  have 3: "(\<forall>r\<in>set (map (outcome_result \<circ> snd) T). success r) \<longrightarrow> length T = length agentList"
    unfolding T_def using chain_trace_all_success[of eng agentList initialInput "queries w"] by simp
  have 4: "map (q_systemPrompt \<circ> fst) T = map systemPrompt (take (length T) agentList)"
    unfolding T_def by (rule chain_trace_system)
  from 1 2 3 4 show ?thesis
    by (simp add: runSequentialChain_trace new_queries_def T_def[symmetric] del: set_map)
qed

lemmas eval_defs = createAgent_def new_BaseAgent_def with_defaults_def run_def run_try_def run_params_def
  scripted_engine_def success_message_def error_message_def result_of_message_def failure_def
  catch_result_def w0_def Let_def template_string_def or_empty_def

lemma three_eval:
  "runSequentialChain scripted_engine three ''go'' w0 =
     ([result_of_message (success_message ''s-ok'' ''x''),
       result_of_message (error_message ''s-fail'' ''error_max_turns'')],
      \<lparr> constructed = [spec_config (three ! 0), spec_config (three ! 1)],
        queries = [(spec_params (three ! 0) ''go'', scripted_engine [] (spec_params (three ! 0) ''go'')),
                   (spec_params (three ! 1) (chain_input ''x''),
                    scripted_engine [] (spec_params (three ! 1) (chain_input ''x'')))] \<rparr>)"
  by (simp add: runSequentialChain_def three_def eval_defs spec_config_def spec_params_def chain_input_def)

lemma two_ok_eval:
  "fst (runSequentialChain scripted_engine two_ok ''go'' w0) =
     [result_of_message (success_message ''s-ok'' ''x''),
      result_of_message (success_message ''s-ok'' ''y'')]"
  by (simp add: runSequentialChain_def two_ok_def eval_defs)

theorem sequential_chain_witness:
  "length (fst (runSequentialChain scripted_engine three ''go'' w0)) = 2 \<and>
   map name (constructed (snd (runSequentialChain scripted_engine three ''go'' w0))) = [''a1'', ''a2''] \<and>
   length (queries (snd (runSequentialChain scripted_engine three ''go'' w0))) = 2 \<and>
   length (fst (runSequentialChain scripted_engine two_ok ''go'' w0)) = length two_ok"
proof -
  note t = sequential_chain_stops_at_first_failure [of scripted_engine _ "''go''" w0,
      unfolded Let_def case_prod_unfold]
  have f: "\<not> success (fst (runSequentialChain scripted_engine three ''go'' w0) ! 1)"
    by (simp add: three_eval result_of_message_def error_message_def)
  have l: "1 < length (fst (runSequentialChain scripted_engine three ''go'' w0))"
    by (simp add: three_eval)
  from t [of three] f l have k: "length (fst (runSequentialChain scripted_engine three ''go'' w0)) = Suc 1"
    by blast
  from t [of three] have
    "constructed (snd (runSequentialChain scripted_engine three ''go'' w0)) =
       constructed w0 @ map spec_config (take (length (fst (runSequentialChain scripted_engine three ''go'' w0))) three)"
    and "queries (snd (runSequentialChain scripted_engine three ''go'' w0)) =
       queries w0 @ new_queries w0 (snd (runSequentialChain scripted_engine three ''go'' w0))"
    and "length (new_queries w0 (snd (runSequentialChain scripted_engine three ''go'' w0))) =
       length (fst (runSequentialChain scripted_engine three ''go'' w0))"
    by blast+
  with k have c: "map name (constructed (snd (runSequentialChain scripted_engine three ''go'' w0))) = [''a1'', ''a2'']"
    and q: "length (queries (snd (runSequentialChain scripted_engine three ''go'' w0))) = 2"
    by (simp_all add: w0_def three_def spec_config_def)
  have "\<forall>r\<in>set (fst (runSequentialChain scripted_engine two_ok ''go'' w0)). success r"
    by (simp add: two_ok_eval result_of_message_def success_message_def)
  with t [of two_ok] have "length (fst (runSequentialChain scripted_engine two_ok ''go'' w0)) = length two_ok"
    by blast
  with k c q show ?thesis by simp
qed

lemma pipeline_loop_Cons:
  "pipeline_loop eng (stage # rest) inp fr sr w =
     (let out = spec_outcome eng stage inp w; res = outcome_result out; w2 = after_run stage inp out w;
          sr' = map_set (name stage) res sr
      in if \<not> success res then (Inr (res, sr'), w2)
         else (case next_input stage res of
                 Inl e \<Rightarrow> (Inl e, w2)
               | Inr inp' \<Rightarrow> pipeline_loop eng rest inp' res sr' w2))"
  by (simp add: fresh_run Let_def)

lemma pipeline_loop_world:
  "snd (pipeline_loop eng stages inp fr sr w) =
     w\<lparr> constructed := constructed w @ map spec_config (take (length (pipeline_trace eng stages inp (queries w))) stages),
        queries := queries w @ pipeline_trace eng stages inp (queries w) \<rparr>"
proof (induction stages arbitrary: inp fr sr w)
  case Nil
  show ?case by simp
next
  case (Cons stage rest)
  show ?case
    by (simp add: pipeline_loop_Cons Cons.IH Let_def after_run_def spec_outcome_def
        split: sum.splits del: pipeline_loop.simps)
qed

lemma pipeline_trace_system:
  "map (q_systemPrompt \<circ> fst) (pipeline_trace eng stages inp h) =
     map systemPrompt (take (length (pipeline_trace eng stages inp h)) stages)"
  by (induction stages arbitrary: inp h)
     (simp_all add: Let_def spec_params_def run_params_def with_defaults_def spec_config_def
        split: sum.splits)

lemma pipeline_trace_first:
  "pipeline_trace eng stages inp h \<noteq> [] \<Longrightarrow> q_prompt (fst (hd (pipeline_trace eng stages inp h))) = inp"
  by (cases stages) (simp_all add: Let_def spec_params_def run_params_def)

lemma pipeline_trace_next:
  "Suc i < length (pipeline_trace eng stages inp h) \<Longrightarrow>
   success (outcome_result (snd (pipeline_trace eng stages inp h ! i))) \<and>
   next_input (stages ! i) (outcome_result (snd (pipeline_trace eng stages inp h ! i))) =
     Inr (q_prompt (fst (pipeline_trace eng stages inp h ! Suc i)))"
proof (induction stages arbitrary: inp h i)
  case Nil
  then show ?case by simp
next
  case (Cons stage rest)
  let ?p = "spec_params stage inp"
  let ?out = "eng h ?p"
  let ?res = "outcome_result ?out"
  from Cons.prems have s: "success ?res"
    by (auto simp add: Let_def split: if_splits)
  with Cons.prems obtain inp' where n: "next_input stage ?res = Inr inp'"
    by (cases "next_input stage ?res") (auto simp add: Let_def)
  let ?t = "pipeline_trace eng rest inp' (h @ [(?p, ?out)])"
  from s n have t: "pipeline_trace eng (stage # rest) inp h = (?p, ?out) # ?t"
    by (simp add: Let_def)
  show ?case
  proof (cases i)
    case 0
    with Cons.prems t have "?t \<noteq> []" by auto
    then have "q_prompt (fst (hd ?t)) = inp'" by (rule pipeline_trace_first)
    with 0 \<open>?t \<noteq> []\<close> s n show ?thesis unfolding t by (simp add: hd_conv_nth)
  next
    case (Suc j)
    with Cons.prems t have "Suc j < length ?t" by simp
    from Cons.IH[OF this] Suc show ?thesis unfolding t by simp
  qed
qed

lemma runPipeline_world:
  "snd (runPipeline eng stages inp w) =
     w\<lparr> constructed := constructed w @ map spec_config (take (length (pipeline_trace eng stages inp (queries w))) stages),
        queries := queries w @ pipeline_trace eng stages inp (queries w) \<rparr>"
  by (simp add: runPipeline_def pipeline_loop_world)

text \<open>
  C7. In \<open>runPipeline\<close>, the query of stage \<open>i + 1\<close> is issued only after stage \<open>i\<close>
  succeeded with a result text, and its prompt is that text itself when stage \<open>i\<close> has no
  transform, and the value the transform returned for that text when it has one. In
  \<open>runSequentialChain\<close>, the prompt of stage \<open>i + 1\<close> is \<open>Previous agent output:\<close>, a line
  feed, the result text of stage \<open>i\<close>, two line feeds and
  \<open>Please continue with your task.\<close>
\<close>

theorem stage_prompts:
  fixes eng :: engine
  shows
  "(let qs = new_queries w (snd (runPipeline eng stages initialInput w)) in
      map (q_systemPrompt \<circ> fst) qs = map systemPrompt (take (length qs) stages) \<and>
      (\<forall>i. Suc i < length qs \<longrightarrow>
         (\<exists>txt. success (outcome_result (snd (qs ! i))) \<and>
                result (outcome_result (snd (qs ! i))) = Some txt \<and>
                (case transform (stages ! i) of
                   Some f \<Rightarrow> f txt = Inr (q_prompt (fst (qs ! Suc i)))
                 | None \<Rightarrow> q_prompt (fst (qs ! Suc i)) = txt)))) \<and>
   (let (results, w') = runSequentialChain eng agentList initialInput w; qs = new_queries w w' in
      map (q_systemPrompt \<circ> fst) qs = map systemPrompt (take (length qs) agentList) \<and>
      length results = length qs \<and>
      (\<forall>i. Suc i < length qs \<longrightarrow>
         (\<exists>txt. success (results ! i) \<and> result (results ! i) = Some txt \<and>
                q_prompt (fst (qs ! Suc i)) =
                  ''Previous agent output:\<newline>'' @ txt @ ''\<newline>\<newline>Please continue with your task.'')))"
proof -
  define P where "P = pipeline_trace eng stages initialInput (queries w)"
  define T where "T = chain_trace eng agentList initialInput (queries w)"
  have p1: "map (q_systemPrompt \<circ> fst) P = map systemPrompt (take (length P) stages)"
    unfolding P_def by (rule pipeline_trace_system)
  have p2: "\<exists>txt. success (outcome_result (snd (P ! i))) \<and>
                result (outcome_result (snd (P ! i))) = Some txt \<and>
                (case transform (stages ! i) of
                   Some f \<Rightarrow> f txt = Inr (q_prompt (fst (P ! Suc i)))
                 | None \<Rightarrow> q_prompt (fst (P ! Suc i)) = txt)" if "Suc i < length P" for i
  proof -
    from that have s: "success (outcome_result (snd (P ! i)))"
      and n: "next_input (stages ! i) (outcome_result (snd (P ! i))) = Inr (q_prompt (fst (P ! Suc i)))"
      unfolding P_def using pipeline_trace_next by blast+
    from outcome_result_wf[OF s] obtain body where "result (outcome_result (snd (P ! i))) = Some body" by blast
    with s n show ?thesis
      by (auto simp add: next_input_def or_empty_def split: option.splits)
  qed
  have t1: "map (q_systemPrompt \<circ> fst) T = map systemPrompt (take (length T) agentList)"
    unfolding T_def by (rule chain_trace_system)
  have t2: "\<exists>txt. success (map (outcome_result \<circ> snd) T ! i) \<and>
                result (map (outcome_result \<circ> snd) T ! i) = Some txt \<and>
                q_prompt (fst (T ! Suc i)) =
                  ''Previous agent output:\<newline>'' @ txt @ ''\<newline>\<newline>Please continue with your task.''"
    if "Suc i < length T" for i
  proof -
    have s: "success (outcome_result (snd (T ! i)))"
    proof (rule ccontr)
      assume "\<not> success (outcome_result (snd (T ! i)))"
      with that chain_trace_failure_last[of i eng agentList initialInput "queries w"]
      show False by (simp add: T_def)
    qed
    from outcome_result_wf[OF s] obtain body where r: "result (outcome_result (snd (T ! i))) = Some body" by blast
    from that have "q_prompt (fst (T ! Suc i)) =
        chain_input (template_string (result (outcome_result (snd (T ! i)))))"
      unfolding T_def by (rule chain_trace_next)
    with s r that show ?thesis
      by (simp add: chain_input_def template_string_def)
  qed
  from p1 p2 have "let qs = P in
      map (q_systemPrompt \<circ> fst) qs = map systemPrompt (take (length qs) stages) \<and>
      (\<forall>i. Suc i < length qs \<longrightarrow>
         (\<exists>txt. success (outcome_result (snd (qs ! i))) \<and>
                result (outcome_result (snd (qs ! i))) = Some txt \<and>
                (case transform (stages ! i) of
                   Some f \<Rightarrow> f txt = Inr (q_prompt (fst (qs ! Suc i)))
                 | None \<Rightarrow> q_prompt (fst (qs ! Suc i)) = txt)))"
    by (simp add: Let_def)
  moreover have "new_queries w (snd (runPipeline eng stages initialInput w)) = P"
    by (simp add: runPipeline_world new_queries_def P_def)
  moreover have "runSequentialChain eng agentList initialInput w =
     (map (outcome_result \<circ> snd) T,
      w\<lparr> constructed := constructed w @ map spec_config (take (length T) agentList),
         queries := queries w @ T \<rparr>)"
    by (simp add: runSequentialChain_trace T_def)
  moreover have "new_queries w (w\<lparr> constructed := constructed w @ map spec_config (take (length T) agentList),
         queries := queries w @ T \<rparr>) = T"
    by (simp add: new_queries_def)
  ultimately show ?thesis using t1 t2
    by (simp add: Let_def)
qed

lemma stages3_eval:
  "map (outcome_result \<circ> snd) (new_queries w0 (snd (runPipeline scripted_engine stages3 ''go'' w0))) =
     [result_of_message (success_message ''s-ok'' ''alpha''),
      result_of_message (success_message ''s-ok'' ''beta''),
      result_of_message (success_message ''s-ok'' ''gamma'')]"
  by (simp add: runPipeline_def stages3_def eval_defs next_input_def new_queries_def
      outcome_result_def)

theorem stage_prompts_witness:
  "q_prompt (fst (new_queries w0 (snd (runPipeline scripted_engine stages3 ''go'' w0)) ! 1)) = ''T:alpha'' \<and>
   q_prompt (fst (new_queries w0 (snd (runPipeline scripted_engine stages3 ''go'' w0)) ! 2)) = ''beta'' \<and>
   q_prompt (fst (new_queries w0 (snd (runSequentialChain scripted_engine three ''go'' w0)) ! 1)) =
     ''Previous agent output:\<newline>x\<newline>\<newline>Please continue with your task.''"
proof -
  let ?P = "new_queries w0 (snd (runPipeline scripted_engine stages3 ''go'' w0))"
  let ?T = "new_queries w0 (snd (runSequentialChain scripted_engine three ''go'' w0))"
  note t = stage_prompts [of w0 scripted_engine stages3 "''go''" three,
      unfolded Let_def case_prod_unfold]
  from arg_cong[OF stages3_eval, of length] have lenP: "length ?P = 3"
    by simp
  from arg_cong[OF stages3_eval, of "\<lambda>xs. xs ! 0"] lenP
  have r0: "outcome_result (snd (?P ! 0)) = result_of_message (success_message ''s-ok'' ''alpha'')"
    by simp
  from arg_cong[OF stages3_eval, of "\<lambda>xs. xs ! Suc 0"] lenP
  have r1: "outcome_result (snd (?P ! Suc 0)) = result_of_message (success_message ''s-ok'' ''beta'')"
    by simp
  have tr0: "transform (stages3 ! 0) = Some (\<lambda>s. Inr (''T:'' @ s))"
    and tr1: "transform (stages3 ! Suc 0) = None"
    by (simp_all add: stages3_def)
  from t have allP: "\<forall>i. Suc i < length ?P \<longrightarrow>
      (\<exists>txt. success (outcome_result (snd (?P ! i))) \<and> result (outcome_result (snd (?P ! i))) = Some txt \<and>
        (case transform (stages3 ! i) of Some f \<Rightarrow> f txt = Inr (q_prompt (fst (?P ! Suc i)))
         | None \<Rightarrow> q_prompt (fst (?P ! Suc i)) = txt))"
    and allT: "\<forall>i. Suc i < length ?T \<longrightarrow>
      (\<exists>txt. success (fst (runSequentialChain scripted_engine three ''go'' w0) ! i) \<and>
        result (fst (runSequentialChain scripted_engine three ''go'' w0) ! i) = Some txt \<and>
        q_prompt (fst (?T ! Suc i)) =
          ''Previous agent output:\<newline>'' @ txt @ ''\<newline>\<newline>Please continue with your task.'')"
    by blast+
  from allP[rule_format, of 0] lenP have p1: "q_prompt (fst (?P ! 1)) = ''T:alpha''"
    by (auto simp add: r0 tr0 result_of_message_def success_message_def)
  from allP[rule_format, of "Suc 0"] lenP have p2: "q_prompt (fst (?P ! Suc (Suc 0))) = ''beta''"
    by (auto simp add: r1 tr1 result_of_message_def success_message_def)
  have lenT: "length ?T = 2"
    unfolding three_eval new_queries_def by (simp add: w0_def)
  have res: "fst (runSequentialChain scripted_engine three ''go'' w0) ! 0 =
      result_of_message (success_message ''s-ok'' ''x'')"
    by (simp add: three_eval)
  from allT[rule_format, of 0] lenT have "q_prompt (fst (?T ! 1)) =
     ''Previous agent output:\<newline>x\<newline>\<newline>Please continue with your task.''"
    by (auto simp add: res result_of_message_def success_message_def)
  with p1 p2 show ?thesis by (simp add: numeral_2_eq_2)
qed

section \<open>Parallel fan-out\<close>

lemma parallel_outcomes_Cons:
  "parallel_outcomes eng (a # rest) inp w =
     (let out = spec_outcome eng a inp w; res = outcome_result out; w2 = after_run a inp out w;
          (outcomes, w3) = parallel_outcomes eng rest inp w2
      in ((name a, res) # outcomes, w3))"
  by (simp add: fresh_run Let_def)

lemma parallel_outcomes_trace:
  "parallel_outcomes eng as inp w =
     (map2 (\<lambda>a q. (name a, outcome_result (snd q))) as (parallel_trace eng as inp (queries w)),
      w\<lparr> constructed := constructed w @ map spec_config as,
         queries := queries w @ parallel_trace eng as inp (queries w) \<rparr>)"
proof (induction as arbitrary: w)
  case Nil
  show ?case by simp
next
  case (Cons a rest)
  show ?case
    by (simp add: parallel_outcomes_Cons Cons.IH Let_def after_run_def spec_outcome_def
        del: parallel_outcomes.simps)
qed

lemma parallel_trace_length [simp]: "length (parallel_trace eng as inp h) = length as"
  by (induction as arbitrary: h) (simp_all add: Let_def)

lemma parallel_trace_params:
  "map fst (parallel_trace eng as inp h) = map (\<lambda>a. spec_params a inp) as"
  by (induction as arbitrary: h) (simp_all add: Let_def)

text \<open>Filling a \<open>Map\<close> from a list of entries.\<close>

lemma first_occurrences_snoc:
  "first_occurrences (xs @ [x]) =
     (if x \<in> set xs then first_occurrences xs else first_occurrences xs @ [x])"
  by (simp add: first_occurrences_def)

lemma set_first_occurrences [simp]: "set (first_occurrences xs) = set xs"
  by (simp add: first_occurrences_def)

lemma distinct_first_occurrences [simp]: "distinct (first_occurrences xs)"
  by (simp add: first_occurrences_def)

lemma fill_keys:
  "map fst (foldl (\<lambda>m x. map_set (k x) (f m x) m) [] xs) = first_occurrences (map k xs)"
proof (induction xs rule: rev_induct)
  case Nil
  show ?case by (simp add: first_occurrences_def)
next
  case (snoc x xs)
  have "set (first_occurrences (map k xs)) = k ` set xs" by simp
  with snoc show ?case
    by (simp add: map_set_def update_keys first_occurrences_snoc del: set_first_occurrences)
qed

lemma fill_last_wins:
  assumes "j < length xs"
    and "\<forall>j'. j < j' \<and> j' < length xs \<longrightarrow> k (xs ! j') \<noteq> k (xs ! j)"
  shows "map_get (foldl (\<lambda>m x. map_set (k x) (v x) m) [] xs) (k (xs ! j)) = Some (v (xs ! j))"
  using assms
proof (induction xs rule: rev_induct)
  case Nil
  then show ?case by simp
next
  case (snoc x xs)
  show ?case
  proof (cases "j = length xs")
    case True
    then show ?thesis by (simp add: map_get_def map_set_def update_conv')
  next
    case False
    with snoc.prems have j: "j < length xs" by simp
    from snoc.prems(2)[rule_format, of "length xs"] j have ne: "k x \<noteq> k (xs ! j)"
      by (simp add: nth_append)
    have "\<forall>j'. j < j' \<and> j' < length xs \<longrightarrow> k (xs ! j') \<noteq> k (xs ! j)"
    proof (intro allI impI)
      fix j' assume "j < j' \<and> j' < length xs"
      with snoc.prems(2)[rule_format, of j'] j show "k (xs ! j') \<noteq> k (xs ! j)"
        by (simp add: nth_append)
    qed
    from snoc.IH[OF j this] ne j show ?thesis
      by (simp add: map_get_def map_set_def update_conv' nth_append)
  qed
qed

lemma runParallelAgents_trace:
  "runParallelAgents eng as inp w =
     (foldl (\<lambda>m x. map_set (name (fst x)) (outcome_result (snd (snd x))) m) []
        (zip as (parallel_trace eng as inp (queries w))),
      w\<lparr> constructed := constructed w @ map spec_config as,
         queries := queries w @ parallel_trace eng as inp (queries w) \<rparr>)"
proof -
  have "foldl (\<lambda>results (n, res). map_set n res results) acc (map2 (\<lambda>a q. (name a, outcome_result (snd q))) xs ys) =
        foldl (\<lambda>m x. map_set (name (fst x)) (outcome_result (snd (snd x))) m) acc (zip xs ys)"
    for acc and xs :: "agent_spec list" and ys :: "(query_params \<times> query_outcome) list"
    by (induction "zip xs ys" arbitrary: acc xs ys rule: rev_induct)
       (simp_all add: foldl_map case_prod_unfold)
  then show ?thesis
    by (simp add: runParallelAgents_def parallel_outcomes_trace)
qed

text \<open>
  C3. \<open>runParallelAgents\<close> constructs one agent and issues one query for every
  specification of the input list, in order and with the same input, whatever the other
  agents' outcomes are. The keys of the returned map are the names of the list, each once,
  in the order of first occurrence. The specification at index \<open>j\<close> has its own result (the
  one made of the outcome of query \<open>j\<close>, success or failure) under its name whenever no
  later specification has the same name: of several specifications with one name, the
  last in the list gives the entry.
\<close>

theorem parallel_agents_all_recorded:
  fixes eng :: engine
  shows
  "let (results, w') = runParallelAgents eng agentList input w; qs = new_queries w w' in
     constructed w' = constructed w @ map spec_config agentList \<and>
     queries w' = queries w @ qs \<and>
     map fst qs = map (\<lambda>a. spec_params a input) agentList \<and>
     map fst results = first_occurrences (map name agentList) \<and>
     (\<forall>j<length agentList.
        (\<forall>j'. j < j' \<and> j' < length agentList \<longrightarrow> name (agentList ! j') \<noteq> name (agentList ! j)) \<longrightarrow>
        map_get results (name (agentList ! j)) = Some (outcome_result (snd (qs ! j))))"
proof -
  define T where "T = parallel_trace eng agentList input (queries w)"
  define Z where "Z = zip agentList T"
  have len: "length T = length agentList" by (simp add: T_def)
  have keys: "map fst (foldl (\<lambda>m x. map_set (name (fst x)) (outcome_result (snd (snd x))) m) [] Z) =
      first_occurrences (map name agentList)"
  proof -
    have "map (\<lambda>x. name (fst x)) Z = map name (map fst Z)" by simp
    also from len have "map fst Z = agentList" by (simp add: Z_def)
    finally show ?thesis
      using fill_keys[of "\<lambda>x. name (fst x)" "\<lambda>m x. outcome_result (snd (snd x))" Z] by simp
  qed
  have last: "map_get (foldl (\<lambda>m x. map_set (name (fst x)) (outcome_result (snd (snd x))) m) [] Z)
        (name (agentList ! j)) = Some (outcome_result (snd (T ! j)))"
    if j: "j < length agentList"
      and l: "\<forall>j'. j < j' \<and> j' < length agentList \<longrightarrow> name (agentList ! j') \<noteq> name (agentList ! j)" for j
  proof -
    from j len have jz: "j < length Z" by (simp add: Z_def)
    have "\<forall>j'. j < j' \<and> j' < length Z \<longrightarrow> name (fst (Z ! j')) \<noteq> name (fst (Z ! j))"
      using l j len by (simp add: Z_def)
    from fill_last_wins[of j Z "\<lambda>x. name (fst x)" "\<lambda>x. outcome_result (snd (snd x))", OF jz this]
    show ?thesis using j len by (simp add: Z_def)
  qed
  from keys last show ?thesis
    by (simp add: runParallelAgents_trace new_queries_def T_def[symmetric] Z_def[symmetric]
        parallel_trace_params[of eng agentList input "queries w", folded T_def])
qed

lemma dup_eval:
  "map (outcome_result \<circ> snd) (new_queries w0 (snd (runParallelAgents scripted_engine dup ''in'' w0))) =
     [result_of_message (success_message ''s-ok'' ''x''),
      result_of_message (error_message ''s-fail'' ''error_max_turns''),
      result_of_message (success_message ''s-ok'' ''y'')]"
  by (simp add: runParallelAgents_def dup_def eval_defs new_queries_def outcome_result_def)

theorem parallel_agents_witness:
  "map fst (fst (runParallelAgents scripted_engine dup ''in'' w0)) = [''a'', ''b''] \<and>
   map_get (fst (runParallelAgents scripted_engine dup ''in'' w0)) ''b'' =
     Some (result_of_message (error_message ''s-fail'' ''error_max_turns'')) \<and>
   map_get (fst (runParallelAgents scripted_engine dup ''in'' w0)) ''a'' =
     Some (result_of_message (success_message ''s-ok'' ''y''))"
proof -
  let ?R = "fst (runParallelAgents scripted_engine dup ''in'' w0)"
  let ?Q = "new_queries w0 (snd (runParallelAgents scripted_engine dup ''in'' w0))"
  note t = parallel_agents_all_recorded [of scripted_engine dup "''in''" w0,
      unfolded Let_def case_prod_unfold]
  from t have keys: "map fst ?R = first_occurrences (map name dup)"
    and slot: "\<forall>j<length dup.
        (\<forall>j'. j < j' \<and> j' < length dup \<longrightarrow> name (dup ! j') \<noteq> name (dup ! j)) \<longrightarrow>
        map_get ?R (name (dup ! j)) = Some (outcome_result (snd (?Q ! j)))"
    by blast+
  from arg_cong[OF dup_eval, of length] have len: "length ?Q = 3" by simp
  from arg_cong[OF dup_eval, of "\<lambda>xs. xs ! Suc 0"] len
  have q1: "outcome_result (snd (?Q ! Suc 0)) = result_of_message (error_message ''s-fail'' ''error_max_turns'')"
    by simp
  from arg_cong[OF dup_eval, of "\<lambda>xs. xs ! Suc (Suc 0)"] len
  have q2: "outcome_result (snd (?Q ! Suc (Suc 0))) = result_of_message (success_message ''s-ok'' ''y'')"
    by simp
  have d: "length dup = 3" "name (dup ! 0) = ''a''" "name (dup ! Suc 0) = ''b''" "name (dup ! Suc (Suc 0)) = ''a''"
    by (simp_all add: dup_def)
  have l1: "\<forall>j'. Suc 0 < j' \<and> j' < length dup \<longrightarrow> name (dup ! j') \<noteq> name (dup ! Suc 0)"
  proof (intro allI impI)
    fix j' assume "Suc 0 < j' \<and> j' < length dup"
    with d have "j' = Suc (Suc 0)" by (simp add: numeral_3_eq_3)
    with d show "name (dup ! j') \<noteq> name (dup ! Suc 0)" by simp
  qed
  have l2: "\<forall>j'. Suc (Suc 0) < j' \<and> j' < length dup \<longrightarrow> name (dup ! j') \<noteq> name (dup ! Suc (Suc 0))"
    using d by (auto simp add: numeral_3_eq_3)
  from slot[rule_format, of "Suc 0"] l1 d q1
  have b: "map_get ?R ''b'' = Some (result_of_message (error_message ''s-fail'' ''error_max_turns''))"
    by simp
  from slot[rule_format, of "Suc (Suc 0)"] l2 d q2
  have a: "map_get ?R ''a'' = Some (result_of_message (success_message ''s-ok'' ''y''))"
    by simp
  from keys have "map fst ?R = [''a'', ''b'']"
    by (simp add: dup_def first_occurrences_def)
  with a b show ?thesis by simp
qed

section \<open>Supervisor\<close>

lemma dropWhile_before:
  "m \<noteq> [] \<Longrightarrow> \<not> P (hd m) \<Longrightarrow> dropWhile P (a @ m) = dropWhile P a @ m"
  by (induction a) (auto simp add: neq_Nil_conv)

text \<open>Trimming stops at a middle part that starts and ends with visible characters.\<close>

lemma trim_around:
  assumes "m \<noteq> []" and "\<not> is_white_space (hd m)" and "\<not> is_white_space (last m)"
  shows "trim (a @ m @ b) =
           dropWhile is_white_space a @ m @ rev (dropWhile is_white_space (rev b))"
proof -
  from assms have 1: "dropWhile is_white_space (a @ m @ b) = dropWhile is_white_space a @ m @ b"
    using dropWhile_before[of "m @ b" is_white_space a] by simp
  from assms have "rev m @ rev (dropWhile is_white_space a) \<noteq> []"
    and "\<not> is_white_space (hd (rev m @ rev (dropWhile is_white_space a)))"
    by (simp_all add: hd_rev)
  from dropWhile_before[of "rev m @ rev (dropWhile is_white_space a)" is_white_space "rev b", OF this]
  have "dropWhile is_white_space (rev (dropWhile is_white_space a @ m @ b)) =
        dropWhile is_white_space (rev b) @ rev m @ rev (dropWhile is_white_space a)"
    by simp
  with 1 show ?thesis by (simp add: trim_def)
qed

lemma sublist_join: "x \<in> set xs \<Longrightarrow> sublist x (join sep xs)"
proof (induction sep xs rule: join.induct)
  case (1 sep)
  then show ?case by simp
next
  case (2 sep y)
  then show ?case by simp
next
  case (3 sep y z zs)
  show ?case
  proof (cases "x = y")
    case True
    then show ?thesis by simp
  next
    case False
    with 3 have "sublist x (join sep (z # zs))" by simp
    then obtain ps ss where "join sep (z # zs) = ps @ x @ ss"
      by (auto simp add: sublist_def)
    then have "join sep (y # z # zs) = (y @ sep @ ps) @ x @ ss" by simp
    then show ?thesis unfolding sublist_def by blast
  qed
qed

lemma enhancedPrompt_parts:
  "enhancedPrompt supervisorPrompt subAgents task =
     dropWhile is_white_space (CHR 0x0A # supervisorPrompt @ [CHR 0x0A, CHR 0x0A]) @
     (''You have access to the following specialized agents:\<newline>'' @
      join ''\<newline>'' (map agent_line subAgents) @
      ''\<newline>\<newline>When you need to delegate a task, describe which agent should handle it and what they should do.\<newline>The system will execute the delegation and return the results.\<newline>\<newline>Task:'') @
     rev (dropWhile is_white_space (rev (CHR 0x20 # task @ [CHR 0x0A, CHR 0x20, CHR 0x20])))"
proof -
  let ?m = "''You have access to the following specialized agents:\<newline>'' @
      join ''\<newline>'' (map agent_line subAgents) @
      ''\<newline>\<newline>When you need to delegate a task, describe which agent should handle it and what they should do.\<newline>The system will execute the delegation and return the results.\<newline>\<newline>Task:''"
  have m: "?m \<noteq> []" "\<not> is_white_space (hd ?m)" "\<not> is_white_space (last ?m)"
    by (simp_all add: is_white_space_def)
  have "enhancedPrompt supervisorPrompt subAgents task =
      trim ((CHR 0x0A # supervisorPrompt @ [CHR 0x0A, CHR 0x0A]) @ ?m @
            (CHR 0x20 # task @ [CHR 0x0A, CHR 0x20, CHR 0x20]))"
    by (simp add: enhancedPrompt_def)
  also note trim_around[OF m]
  finally show ?thesis .
qed

lemma sublist_trimmed_start: "sublist (dropWhile P xs) (dropWhile P (a @ xs @ b) @ rest)"
proof (cases "\<forall>x\<in>set xs. P x")
  case True
  then have e: "dropWhile P xs = []" by simp
  show ?thesis unfolding e by simp
next
  case False
  then obtain x where x: "x \<in> set xs" "\<not> P x" by blast
  then have "dropWhile P (xs @ b) = dropWhile P xs @ b"
    by (simp add: dropWhile_append1)
  moreover have "\<exists>ps. dropWhile P (a @ xs @ b) = ps @ dropWhile P (xs @ b)"
  proof (induction a)
    case Nil
    show ?case by simp
  next
    case (Cons a1 a2)
    show ?case
    proof (cases "P a1")
      case True
      with Cons show ?thesis by simp
    next
      case False
      then have "dropWhile P ((a1 # a2) @ xs @ b) =
          (a1 # a2 @ takeWhile P (xs @ b)) @ dropWhile P (xs @ b)"
        by simp
      then show ?thesis by blast
    qed
  qed
  ultimately obtain ps where "dropWhile P (a @ xs @ b) @ rest = ps @ dropWhile P xs @ (b @ rest)"
    by auto
  then show ?thesis unfolding sublist_def by blast
qed

lemma sublist_trimmed_end:
  "sublist (rev (dropWhile P (rev xs))) (rest @ rev (dropWhile P (rev (a @ xs @ b))))"
proof -
  have "sublist (dropWhile P (rev xs)) (dropWhile P (rev b @ rev xs @ rev a) @ rev rest)"
    by (rule sublist_trimmed_start)
  then have "sublist (rev (dropWhile P (rev xs))) (rev (dropWhile P (rev b @ rev xs @ rev a) @ rev rest))"
    by (simp only: sublist_rev)
  then show ?thesis by simp
qed

lemma runWithSupervisor_eq:
  "runWithSupervisor eng supervisorPrompt subAgents task w =
     (let sup = \<lparr> name = ''supervisor'', systemPrompt = enhancedPrompt supervisorPrompt subAgents task \<rparr>;
          out = spec_outcome eng sup task w
      in (outcome_result out, after_run sup task out w))"
  using fresh_run[where s = "\<lparr> name = ''supervisor'', systemPrompt = enhancedPrompt supervisorPrompt subAgents task \<rparr>"
      and w = w and eng = eng and prompt = task and F = "\<lambda>res w2. (res, w2)"]
  by (simp add: runWithSupervisor_def Let_def)

text \<open>
  C6. \<open>runWithSupervisor\<close> constructs exactly one agent, named \<open>supervisor\<close>, whose system
  prompt is the composite prompt, and issues exactly one query, with the task as its prompt;
  it returns that run's result. No agent is constructed and no query issued for any of the
  delegates, whatever the list holds. The composite prompt contains the supervisor's
  instructions (less leading white space, which \<open>trim\<close> removes), the line \<open>- name:
  description\<close> of every delegate, and the task (less trailing white space).
\<close>

theorem supervisor_runs_one_agent:
  fixes eng :: engine
  shows
  "let (res, w') = runWithSupervisor eng supervisorPrompt subAgents task w;
       composite = enhancedPrompt supervisorPrompt subAgents task;
       sup = \<lparr> name = ''supervisor'', systemPrompt = composite \<rparr>;
       out = spec_outcome eng sup task w in
     constructed w' = constructed w @ [spec_config sup] \<and>
     queries w' = queries w @ [(spec_params sup task, out)] \<and>
     res = outcome_result out \<and>
     q_systemPrompt (spec_params sup task) = composite \<and>
     q_prompt (spec_params sup task) = task \<and>
     sublist (dropWhile is_white_space supervisorPrompt) composite \<and>
     (\<forall>a\<in>set subAgents. sublist (agent_line a) composite) \<and>
     sublist (rev (dropWhile is_white_space (rev task))) composite"
proof -
  define composite where "composite = enhancedPrompt supervisorPrompt subAgents task"
  define a where "a = dropWhile is_white_space (CHR 0x0A # supervisorPrompt @ [CHR 0x0A, CHR 0x0A])"
  define b where "b = rev (dropWhile is_white_space (rev (CHR 0x20 # task @ [CHR 0x0A, CHR 0x20, CHR 0x20])))"
  define m1 where "m1 = ''You have access to the following specialized agents:\<newline>''"
  define m2 where "m2 = ''\<newline>\<newline>When you need to delegate a task, describe which agent should handle it and what they should do.\<newline>The system will execute the delegation and return the results.\<newline>\<newline>Task:''"
  have c: "composite = a @ (m1 @ join ''\<newline>'' (map agent_line subAgents) @ m2) @ b"
    unfolding composite_def a_def b_def m1_def m2_def by (rule enhancedPrompt_parts)
  have s1: "sublist (dropWhile is_white_space supervisorPrompt) composite"
    unfolding c a_def
    using sublist_trimmed_start[of is_white_space supervisorPrompt "[CHR 0x0A]" "[CHR 0x0A, CHR 0x0A]"]
    by simp
  have s2: "sublist (agent_line x) composite" if "x \<in> set subAgents" for x
  proof -
    from that have "sublist (agent_line x) (join ''\<newline>'' (map agent_line subAgents))"
      by (intro sublist_join) simp
    then obtain ps ss where "join ''\<newline>'' (map agent_line subAgents) = ps @ agent_line x @ ss"
      by (auto simp add: sublist_def)
    then have "composite = (a @ m1 @ ps) @ agent_line x @ (ss @ m2 @ b)"
      unfolding c by simp
    then show ?thesis unfolding sublist_def by blast
  qed
  have s3: "sublist (rev (dropWhile is_white_space (rev task))) composite"
    unfolding c b_def
    using sublist_trimmed_end[of is_white_space task
        "a @ (m1 @ join ''\<newline>'' (map agent_line subAgents) @ m2)" "[CHR 0x20]" "[CHR 0x0A, CHR 0x20, CHR 0x20]"]
    by simp
  have p: "q_systemPrompt (spec_params \<lparr> name = ''supervisor'', systemPrompt = composite \<rparr> task) = composite"
    "q_prompt (spec_params \<lparr> name = ''supervisor'', systemPrompt = composite \<rparr> task) = task"
    by (simp_all add: spec_params_def run_params_def with_defaults_def spec_config_def)
  from s1 s2 s3 p show ?thesis
    by (simp add: runWithSupervisor_eq Let_def after_run_def composite_def[symmetric])
qed

theorem supervisor_witness:
  "map name (constructed (snd (runWithSupervisor scripted_engine ''You coordinate.'' delegates ''ship it'' w0))) =
     [''supervisor''] \<and>
   length (queries (snd (runWithSupervisor scripted_engine ''You coordinate.'' delegates ''ship it'' w0))) = 1 \<and>
   sublist ''- tester: runs the tests'' (enhancedPrompt ''You coordinate.'' delegates ''ship it'')"
proof -
  define sp where "sp = ''You coordinate.''"
  define task where "task = ''ship it''"
  note t = supervisor_runs_one_agent [of scripted_engine sp delegates task w0,
      unfolded Let_def case_prod_unfold]
  note t1 = t [THEN conjunct1]
  note t2 = t [THEN conjunct2, THEN conjunct1]
  note t7 = t [THEN conjunct2, THEN conjunct2, THEN conjunct2, THEN conjunct2, THEN conjunct2,
      THEN conjunct2, THEN conjunct1]
  have "delegates ! 1 \<in> set delegates" by (simp add: delegates_def)
  with t7 have "sublist (agent_line (delegates ! 1)) (enhancedPrompt sp delegates task)"
    by (rule bspec)
  moreover have "agent_line (delegates ! 1) = ''- tester: runs the tests''"
    by (simp add: delegates_def agent_line_def)
  moreover from t1 have "map name (constructed (snd (runWithSupervisor scripted_engine sp delegates task w0))) =
     [''supervisor'']"
    by (simp add: w0_def spec_config_def)
  moreover from t2 have "length (queries (snd (runWithSupervisor scripted_engine sp delegates task w0))) = 1"
    by (simp add: w0_def)
  ultimately show ?thesis unfolding sp_def task_def by simp
qed

section \<open>Consensus\<close>

text \<open>\<open>parseInt\<close> on the matched digits is the number they denote.\<close>

lemma digit_value_nat: "is_digit c \<Longrightarrow> digit_value c = int (digit_nat c)"
  by (auto simp add: is_digit_def digit_value_def digit_nat_def)

lemma decimal_value_snoc:
  "decimal_value (ds @ [c]) = decimal_value ds * 10 + digit_nat c"
  by (induction ds) (simp_all add: algebra_simps)

lemma parseInt_decimal:
  "\<forall>c\<in>set ds. is_digit c \<Longrightarrow> parseInt ds = int (decimal_value ds)"
proof (induction ds rule: rev_induct)
  case Nil
  show ?case by (simp add: parseInt_def)
next
  case (snoc c ds)
  then have "parseInt ds = int (decimal_value ds)" and "is_digit c" by simp_all
  then show ?case
    by (simp add: parseInt_def decimal_value_snoc digit_value_nat)
qed

lemma takeWhile_digits: "\<forall>c\<in>set (takeWhile is_digit s). is_digit c"
  by (auto dest: set_takeWhileD)

text \<open>The callback that parses one vote does what the specification says of a vote.\<close>

lemma parse_vote_valid:
  "parse_vote options votes (n, r) =
     (case valid_vote options r of None \<Rightarrow> votes | Some opt \<Rightarrow> map_set n opt votes)"
proof (cases "result r")
  case None
  then show ?thesis by (simp add: parse_vote_def valid_vote_def)
next
  case (Some body)
  define ds where "ds = takeWhile is_digit body"
  have p: "parseInt ds = int (decimal_value ds)"
    unfolding ds_def by (rule parseInt_decimal[OF takeWhile_digits])
  have e: "ds = [] \<longleftrightarrow> body = [] \<or> ds = []" by (auto simp add: ds_def)
  show ?thesis
  proof (cases "success r \<and> ds \<noteq> []")
    case True
    then have b: "body \<noteq> []" by (auto simp add: ds_def)
    have n: "nat (int (decimal_value ds) - 1) = decimal_value ds - 1" by simp
    from True b show ?thesis
      by (auto simp add: parse_vote_def valid_vote_def Some match_leading_digits_def
          ds_def[symmetric] p Let_def n)
  next
    case False
    then show ?thesis
      by (auto simp add: parse_vote_def valid_vote_def Some match_leading_digits_def
          ds_def[symmetric] Let_def)
  qed
qed

lemma map_set_fresh: "k \<notin> fst ` set m \<Longrightarrow> map_set k v m = m @ [(k, v)]"
  by (induction m) (auto simp add: map_set_def)

lemma keys_map_filter_vote:
  "fst ` set (List.map_filter (vote_entry options) rs) \<subseteq> fst ` set rs"
  by (induction rs) (auto simp add: List.map_filter_simps vote_entry_def split: option.splits)

lemma parse_votes_acc:
  "distinct (map fst rs) \<Longrightarrow> fst ` set acc \<inter> fst ` set rs = {} \<Longrightarrow>
   foldl (parse_vote options) acc rs = acc @ List.map_filter (vote_entry options) rs"
proof (induction rs arbitrary: acc)
  case Nil
  show ?case by (simp add: List.map_filter_simps)
next
  case (Cons e rs)
  obtain n r where e: "e = (n, r)" by (cases e)
  from Cons.prems have n: "n \<notin> fst ` set acc" and d: "distinct (map fst rs)"
    and nr: "n \<notin> fst ` set rs" and dis: "fst ` set acc \<inter> fst ` set rs = {}"
    by (auto simp add: e)
  show ?case
  proof (cases "valid_vote options r")
    case None
    with Cons.IH[OF d dis] show ?thesis
      by (simp add: e parse_vote_valid List.map_filter_simps vote_entry_def)
  next
    case (Some opt)
    from nr dis have "fst ` set (acc @ [(n, opt)]) \<inter> fst ` set rs = {}" by auto
    from Cons.IH[OF d this] Some n show ?thesis
      by (simp add: e parse_vote_valid List.map_filter_simps vote_entry_def map_set_fresh)
  qed
qed

lemma parse_votes_eq:
  "distinct (map fst rs) \<Longrightarrow> parse_votes options rs = List.map_filter (vote_entry options) rs"
  by (simp add: parse_votes_def parse_votes_acc)

lemma map_of_vote_entries:
  "distinct (map fst rs) \<Longrightarrow>
   map_of (List.map_filter (vote_entry options) rs) n =
     (case map_of rs n of None \<Rightarrow> None | Some r \<Rightarrow> valid_vote options r)"
proof (induction rs)
  case Nil
  show ?case by (simp add: List.map_filter_simps)
next
  case (Cons e rs)
  obtain m r where e: "e = (m, r)" by (cases e)
  from Cons.prems have d: "distinct (map fst rs)" and m: "m \<notin> fst ` set rs" by (auto simp add: e)
  from m keys_map_filter_vote[of options rs]
  have "map_of (List.map_filter (vote_entry options) rs) m = None"
    by (auto simp add: map_of_eq_None_iff)
  moreover from m have "map_of rs m = None"
    by (simp add: map_of_eq_None_iff)
  ultimately show ?case using Cons.IH[OF d]
    by (auto simp add: e List.map_filter_simps vote_entry_def split: option.splits)
qed

text \<open>Counting.\<close>

lemma count_votes_keys: "map fst (count_votes votes) = first_occurrences (map snd votes)"
proof -
  have eq: "count_vote = (\<lambda>m x. map_set x ((case map_get m x of None \<Rightarrow> 0 | Some c \<Rightarrow> c) + 1) m)"
    by (intro ext) (simp add: count_vote_def)
  from fill_keys[of "\<lambda>x. x" "\<lambda>m x. (case map_get m x of None \<Rightarrow> 0 | Some c \<Rightarrow> c) + 1" "map snd votes"]
  show ?thesis unfolding count_votes_def eq by (simp only: list.map_ident)
qed

lemma count_fold:
  "map_of (foldl count_vote [] vs) opt =
     (if opt \<in> set vs then Some (length (filter (\<lambda>v. v = opt) vs)) else None)"
proof (induction vs rule: rev_induct)
  case Nil
  show ?case by simp
next
  case (snoc v vs)
  then show ?case
    by (auto simp add: count_vote_def map_set_def map_get_def update_conv' filter_empty_conv)
qed

lemma tally_values: "tally votes opt = length (filter (\<lambda>v. v = opt) (map snd votes))"
  by (simp add: tally_def filter_map comp_def)

lemma count_votes_tally:
  "map_get (count_votes votes) opt = (if tally votes opt = 0 then None else Some (tally votes opt))"
proof -
  have "tally votes opt = 0 \<longleftrightarrow> opt \<notin> set (map snd votes)"
    unfolding tally_values by (auto simp add: filter_empty_conv)
  then show ?thesis
    by (simp add: count_votes_def map_get_def count_fold tally_values)
qed

text \<open>Finding the winner: the first entry with the greatest count, when one beats the start.\<close>

lemma find_winner_fold:
  "(foldl find_winner (wi, mi) kvs = (wi, mi) \<and> (\<forall>e\<in>set kvs. snd e \<le> mi)) \<or>
   (\<exists>pre k c post. kvs = pre @ (k, c) # post \<and> foldl find_winner (wi, mi) kvs = (Some k, c) \<and>
      mi < c \<and> (\<forall>e\<in>set pre. snd e < c) \<and> (\<forall>e\<in>set post. snd e \<le> c))"
proof (induction kvs arbitrary: wi mi)
  case Nil
  show ?case by simp
next
  case (Cons e kvs)
  obtain k1 c1 where e: "e = (k1, c1)" by (cases e)
  show ?case
  proof (cases "c1 > mi")
    case True
    then have step: "foldl find_winner (wi, mi) (e # kvs) = foldl find_winner (Some k1, c1) kvs"
      by (simp add: e find_winner_def)
    from Cons.IH[of "Some k1" c1] show ?thesis
    proof
      assume "foldl find_winner (Some k1, c1) kvs = (Some k1, c1) \<and> (\<forall>e\<in>set kvs. snd e \<le> c1)"
      with True step have "e # kvs = [] @ (k1, c1) # kvs \<and>
          foldl find_winner (wi, mi) (e # kvs) = (Some k1, c1) \<and> mi < c1 \<and>
          (\<forall>e\<in>set []. snd e < c1) \<and> (\<forall>e\<in>set kvs. snd e \<le> c1)"
        by (simp add: e)
      then show ?thesis by blast
    next
      assume "\<exists>pre k c post. kvs = pre @ (k, c) # post \<and>
          foldl find_winner (Some k1, c1) kvs = (Some k, c) \<and> c1 < c \<and>
          (\<forall>e\<in>set pre. snd e < c) \<and> (\<forall>e\<in>set post. snd e \<le> c)"
      then obtain pre k c post where kvs: "kvs = pre @ (k, c) # post"
        and f: "foldl find_winner (Some k1, c1) kvs = (Some k, c)" and c: "c1 < c"
        and pre: "\<forall>e\<in>set pre. snd e < c" and post: "\<forall>e\<in>set post. snd e \<le> c"
        by blast
      from kvs f c pre post True step have "e # kvs = (e # pre) @ (k, c) # post \<and>
          foldl find_winner (wi, mi) (e # kvs) = (Some k, c) \<and> mi < c \<and>
          (\<forall>e\<in>set (e # pre). snd e < c) \<and> (\<forall>e\<in>set post. snd e \<le> c)"
        by (simp add: e)
      then show ?thesis by blast
    qed
  next
    case False
    then have step: "foldl find_winner (wi, mi) (e # kvs) = foldl find_winner (wi, mi) kvs"
      by (simp add: e find_winner_def)
    from Cons.IH[of wi mi] show ?thesis
    proof
      assume "foldl find_winner (wi, mi) kvs = (wi, mi) \<and> (\<forall>e\<in>set kvs. snd e \<le> mi)"
      with False step show ?thesis by (simp add: e)
    next
      assume "\<exists>pre k c post. kvs = pre @ (k, c) # post \<and>
          foldl find_winner (wi, mi) kvs = (Some k, c) \<and> mi < c \<and>
          (\<forall>e\<in>set pre. snd e < c) \<and> (\<forall>e\<in>set post. snd e \<le> c)"
      then obtain pre k c post where kvs: "kvs = pre @ (k, c) # post"
        and f: "foldl find_winner (wi, mi) kvs = (Some k, c)" and c: "mi < c"
        and pre: "\<forall>e\<in>set pre. snd e < c" and post: "\<forall>e\<in>set post. snd e \<le> c"
        by blast
      from kvs f c pre post False step have "e # kvs = (e # pre) @ (k, c) # post \<and>
          foldl find_winner (wi, mi) (e # kvs) = (Some k, c) \<and> mi < c \<and>
          (\<forall>e\<in>set (e # pre). snd e < c) \<and> (\<forall>e\<in>set post. snd e \<le> c)"
        by (simp add: e)
      then show ?thesis by blast
    qed
  qed
qed

text \<open>Where a key of the first occurrences stands, the list has its first occurrence.\<close>

lemma first_occurrences_split:
  "first_occurrences vs = ks1 @ k # ks2 \<Longrightarrow>
   \<exists>v1 v2. vs = v1 @ k # v2 \<and> set v1 = set ks1"
proof (induction vs arbitrary: ks2 rule: rev_induct)
  case Nil
  then show ?case by (simp add: first_occurrences_def)
next
  case (snoc x vs)
  show ?case
  proof (cases "x \<in> set vs")
    case True
    with snoc.prems have "first_occurrences vs = ks1 @ k # ks2"
      by (simp add: first_occurrences_snoc)
    from snoc.IH[OF this] obtain v1 v2 where "vs = v1 @ k # v2" "set v1 = set ks1" by blast
    then have "vs @ [x] = v1 @ k # (v2 @ [x]) \<and> set v1 = set ks1" by simp
    then show ?thesis by blast
  next
    case False
    with snoc.prems have f: "first_occurrences vs @ [x] = ks1 @ k # ks2"
      by (simp add: first_occurrences_snoc)
    show ?thesis
    proof (cases ks2 rule: rev_cases)
      case Nil
      with f have "first_occurrences vs = ks1" and "x = k" by simp_all
      then have "vs @ [x] = vs @ k # [] \<and> set vs = set ks1"
        using set_first_occurrences[of vs] by simp
      then show ?thesis by blast
    next
      case (snoc ks2' y)
      with f have "first_occurrences vs = ks1 @ k # ks2'" by simp
      from snoc.IH[OF this] obtain v1 v2 where "vs = v1 @ k # v2" "set v1 = set ks1" by blast
      then have "vs @ [x] = v1 @ k # (v2 @ [x]) \<and> set v1 = set ks1" by simp
      then show ?thesis by blast
    qed
  qed
qed

lemma count_votes_distinct: "distinct (map fst (count_votes votes))"
  by (simp add: count_votes_keys)

lemma count_votes_entry:
  assumes "(k, c) \<in> set (count_votes votes)"
  shows "c = tally votes k \<and> 0 < c"
proof -
  from assms count_votes_distinct have "map_of (count_votes votes) k = Some c"
    by (simp add: map_of_is_SomeI)
  with count_votes_tally[of votes k] show ?thesis
    by (simp add: map_get_def split: if_splits)
qed

lemma count_votes_has_entry:
  assumes "e \<in> set votes"
  shows "(snd e, tally votes (snd e)) \<in> set (count_votes votes)"
proof -
  from assms have "tally votes (snd e) \<noteq> 0"
    by (auto simp add: tally_def filter_empty_conv)
  with count_votes_tally[of votes "snd e"]
  have "map_of (count_votes votes) (snd e) = Some (tally votes (snd e))"
    by (simp add: map_get_def)
  then show ?thesis by (rule map_of_SomeD)
qed

lemma pick_winner_no_votes: "pick_winner options (count_votes []) = first_option options"
  by (simp add: pick_winner_def count_votes_def)

lemma pick_winner_votes:
  assumes "votes \<noteq> []"
  shows "\<exists>pre a opt post. votes = pre @ (a, opt) # post \<and>
           pick_winner options (count_votes votes) = Some opt \<and>
           (\<forall>e\<in>set pre. tally votes (snd e) < tally votes opt) \<and>
           (\<forall>e\<in>set votes. tally votes (snd e) \<le> tally votes opt)"
proof -
  define kvs where "kvs = count_votes votes"
  from assms obtain e0 where e0: "e0 \<in> set votes" by (cases votes) auto
  from find_winner_fold[of "first_option options" 0 kvs]
  obtain kpre k c kpost where kvs: "kvs = kpre @ (k, c) # kpost"
    and win: "foldl find_winner (first_option options, 0) kvs = (Some k, c)"
    and pre: "\<forall>e\<in>set kpre. snd e < c" and post: "\<forall>e\<in>set kpost. snd e \<le> c"
  proof
    assume "foldl find_winner (first_option options, 0) kvs = (first_option options, 0) \<and>
        (\<forall>e\<in>set kvs. snd e \<le> 0)"
    moreover from count_votes_has_entry[OF e0] count_votes_entry[of "snd e0" "tally votes (snd e0)" votes]
    have "(snd e0, tally votes (snd e0)) \<in> set kvs" and "0 < tally votes (snd e0)"
      by (simp_all add: kvs_def)
    ultimately have False by fastforce
    then show ?thesis ..
  next
    assume "\<exists>pre k c post. kvs = pre @ (k, c) # post \<and>
        foldl find_winner (first_option options, 0) kvs = (Some k, c) \<and> 0 < c \<and>
        (\<forall>e\<in>set pre. snd e < c) \<and> (\<forall>e\<in>set post. snd e \<le> c)"
    with that show ?thesis by blast
  qed
  have c: "c = tally votes k"
    using count_votes_entry[of k c votes] by (simp add: kvs_def[symmetric] kvs)
  have "first_occurrences (map snd votes) = map fst kpre @ k # map fst kpost"
    using count_votes_keys[of votes] by (simp add: kvs_def[symmetric] kvs)
  from first_occurrences_split[OF this] obtain v1 v2 where
    vs: "map snd votes = v1 @ k # v2" and v1: "set v1 = fst ` set kpre" by auto
  from vs obtain p1 a p2 where votes: "votes = p1 @ (a, k) # p2" and p1: "map snd p1 = v1"
    by (auto simp add: map_eq_append_conv map_eq_Cons_conv)
  have before: "tally votes (snd e) < tally votes k" if "e \<in> set p1" for e
  proof -
    from that p1 v1 have "snd e \<in> fst ` set kpre" by force
    then obtain c' where in_pre: "(snd e, c') \<in> set kpre" by auto
    then have "(snd e, c') \<in> set (count_votes votes)" by (simp add: kvs_def[symmetric] kvs)
    from count_votes_entry[OF this] have "c' = tally votes (snd e)" by simp
    with pre in_pre c show ?thesis by force
  qed
  have all: "tally votes (snd e) \<le> tally votes k" if "e \<in> set votes" for e
  proof -
    from count_votes_has_entry[OF that] have "(snd e, tally votes (snd e)) \<in> set kvs"
      by (simp add: kvs_def)
    then consider "(snd e, tally votes (snd e)) \<in> set kpre" | "(snd e, tally votes (snd e)) = (k, c)"
      | "(snd e, tally votes (snd e)) \<in> set kpost"
      by (auto simp add: kvs)
    then show ?thesis
    proof cases
      case 1
      with pre c show ?thesis by force
    next
      case 2
      with c show ?thesis by simp
    next
      case 3
      with post c show ?thesis by force
    qed
  qed
  from win have "pick_winner options (count_votes votes) = Some k"
    by (simp add: pick_winner_def kvs_def)
  with votes before all show ?thesis by blast
qed

lemma runParallelAgents_distinct:
  "distinct (map fst (fst (runParallelAgents eng as inp w)))"
proof -
  have "map fst (fst (runParallelAgents eng as inp w)) =
      first_occurrences (map (\<lambda>x. name (fst x)) (zip as (parallel_trace eng as inp (queries w))))"
    by (simp add: runParallelAgents_trace fill_keys)
  then show ?thesis by simp
qed

lemma runConsensusAgents_eq:
  "runConsensusAgents eng as question options w =
     (let results = fst (runParallelAgents eng as (votingPrompt question options) w);
          votes = List.map_filter (vote_entry options) results
      in ((pick_winner options (count_votes votes), votes),
          snd (runParallelAgents eng as (votingPrompt question options) w)))"
  by (simp add: runConsensusAgents_def Let_def case_prod_unfold parse_votes_eq
      runParallelAgents_distinct)

text \<open>
  C8. The vote map that \<open>runConsensusAgents\<close> returns holds, in the order of the result
  map, exactly the agents whose result votes: the result is a success whose text starts
  with a run of decimal digits denoting a number between 1 and the number of options, and
  the agent's entry is the option at that 1-based index. Every other result (a failure, no
  leading digit, an index out of range) has no entry, and nothing is raised. The tallies
  count the entries of the vote map only, and the winner is found from those tallies.
\<close>

theorem consensus_votes_parsed:
  fixes eng :: engine
  shows
  "let ((winner, votes), w') = runConsensusAgents eng agentList question options w;
       (results, w'') = runParallelAgents eng agentList (votingPrompt question options) w in
     w' = w'' \<and>
     votes = List.map_filter (vote_entry options) results \<and>
     (\<forall>n. map_get votes n =
        (case map_get results n of None \<Rightarrow> None | Some r \<Rightarrow> valid_vote options r)) \<and>
     (\<forall>opt. map_get (count_votes votes) opt =
        (if tally votes opt = 0 then None else Some (tally votes opt))) \<and>
     winner = pick_winner options (count_votes votes)"
  by (simp add: runConsensusAgents_eq Let_def case_prod_unfold map_get_def
      map_of_vote_entries runParallelAgents_distinct count_votes_tally[unfolded map_get_def])

text \<open>
  C1, as the code has it. With no valid vote the winner is \<open>options[0]\<close> (\<open>undefined\<close>, here
  \<open>None\<close>, when there is no option). Otherwise the winner is an option with the greatest
  tally of valid votes, and among the options with that tally it is the one whose first
  vote comes first in the vote map, that is in the order of the agents: every vote before
  the winner's first vote is for an option with a strictly smaller tally.
\<close>

theorem consensus_winner:
  fixes eng :: engine
  shows
  "let ((winner, votes), w') = runConsensusAgents eng agentList question options w in
     (votes = [] \<longrightarrow> winner = first_option options) \<and>
     (votes \<noteq> [] \<longrightarrow>
        (\<exists>pre a opt post. votes = pre @ (a, opt) # post \<and> winner = Some opt \<and>
           (\<forall>e\<in>set pre. tally votes (snd e) < tally votes opt) \<and>
           (\<forall>e\<in>set votes. tally votes (snd e) \<le> tally votes opt)))"
proof -
  define votes where "votes =
    List.map_filter (vote_entry options) (fst (runParallelAgents eng agentList (votingPrompt question options) w))"
  have "votes = [] \<longrightarrow> pick_winner options (count_votes votes) = first_option options"
    by (auto simp add: pick_winner_no_votes)
  moreover have "votes \<noteq> [] \<longrightarrow>
        (\<exists>pre a opt post. votes = pre @ (a, opt) # post \<and>
           pick_winner options (count_votes votes) = Some opt \<and>
           (\<forall>e\<in>set pre. tally votes (snd e) < tally votes opt) \<and>
           (\<forall>e\<in>set votes. tally votes (snd e) \<le> tally votes opt))"
    using pick_winner_votes[of votes options] by blast
  ultimately show ?thesis
    by (simp add: runConsensusAgents_eq Let_def votes_def[symmetric])
qed

lemmas consensus_defs = runConsensusAgents_def runParallelAgents_def parse_votes_def parse_vote_def
  match_leading_digits_def is_digit_def parseInt_def digit_value_def count_votes_def count_vote_def
  pick_winner_def find_winner_def first_option_def map_set_def map_get_def

text \<open>
  Two agents, two options, one valid vote each: the first agent votes for the second
  option, and the second option wins, although the first option stands earlier in the list.
\<close>

theorem consensus_tie_counterexample:
  "fst (runConsensusAgents scripted_engine split_voters ''Which?'' [''A'', ''B''] w0) =
     (Some ''B'', [(''first'', ''B''), (''second'', ''A'')]) \<and>
   tally [(''first'', ''B''), (''second'', ''A'')] ''A'' = 1 \<and>
   tally [(''first'', ''B''), (''second'', ''A'')] ''B'' = 1"
  by (simp add: consensus_defs split_voters_def eval_defs tally_def)

lemma five_voters_results:
  "fst (runParallelAgents scripted_engine five_voters p w0) =
     [(''v1'', result_of_message (success_message ''s-ok'' ''1'')),
      (''v2'', result_of_message (success_message ''s-ok'' ''2. B is best'')),
      (''v3'', result_of_message (success_message ''s-ok'' ''2'')),
      (''v4'', result_of_message (success_message ''s-ok'' ''3 because'')),
      (''v5'', result_of_message (success_message ''s-ok'' ''I cannot decide''))]"
  by (simp add: runParallelAgents_def five_voters_def eval_defs map_set_def)

lemma valid_vote_examples:
  "valid_vote [''A'', ''B'', ''C''] (result_of_message (success_message ''s-ok'' ''1'')) = Some ''A''"
  "valid_vote [''A'', ''B'', ''C''] (result_of_message (success_message ''s-ok'' ''2. B is best'')) = Some ''B''"
  "valid_vote [''A'', ''B'', ''C''] (result_of_message (success_message ''s-ok'' ''2'')) = Some ''B''"
  "valid_vote [''A'', ''B'', ''C''] (result_of_message (success_message ''s-ok'' ''3 because'')) = Some ''C''"
  "valid_vote [''A'', ''B'', ''C''] (result_of_message (success_message ''s-ok'' ''I cannot decide'')) = None"
  by (simp_all add: valid_vote_def result_of_message_def success_message_def is_digit_def digit_nat_def)

theorem consensus_votes_witness:
  "fst (runConsensusAgents scripted_engine five_voters ''Which?'' [''A'', ''B'', ''C''] w0) =
     (Some ''B'', [(''v1'', ''A''), (''v2'', ''B''), (''v3'', ''B''), (''v4'', ''C'')]) \<and>
   count_votes [(''v1'', ''A''), (''v2'', ''B''), (''v3'', ''B''), (''v4'', ''C'')] =
     [(''A'', 1), (''B'', 2), (''C'', 1)]"
proof -
  note t = consensus_votes_parsed [of scripted_engine five_voters "''Which?''" "[''A'', ''B'', ''C'']" w0,
      unfolded Let_def case_prod_unfold]
  note t2 = t [THEN conjunct2, THEN conjunct1]
  note t5 = t [THEN conjunct2, THEN conjunct2, THEN conjunct2, THEN conjunct2]
  from t2 have votes: "snd (fst (runConsensusAgents scripted_engine five_voters ''Which?'' [''A'', ''B'', ''C''] w0)) =
      [(''v1'', ''A''), (''v2'', ''B''), (''v3'', ''B''), (''v4'', ''C'')]"
    by (simp add: five_voters_results List.map_filter_simps vote_entry_def valid_vote_examples)
  have counts: "count_votes [(''v1'', ''A''), (''v2'', ''B''), (''v3'', ''B''), (''v4'', ''C'')] =
     [(''A'', 1), (''B'', 2), (''C'', 1)]"
    by (simp add: count_votes_def count_vote_def map_set_def map_get_def)
  from t5 have "fst (fst (runConsensusAgents scripted_engine five_voters ''Which?'' [''A'', ''B'', ''C''] w0)) = Some ''B''"
    unfolding votes counts by (simp add: pick_winner_def find_winner_def first_option_def)
  with votes counts show ?thesis by (simp add: prod_eq_iff)
qed

theorem consensus_winner_witness:
  "fst (fst (runConsensusAgents scripted_engine split_voters ''Which?'' [''A'', ''B''] w0)) = Some ''B'' \<and>
   fst (fst (runConsensusAgents scripted_engine [] ''Which?'' [''A'', ''B''] w0)) = Some ''A''"
proof -
  note t = consensus_winner [of scripted_engine _ "''Which?''" "[''A'', ''B'']" w0,
      unfolded Let_def case_prod_unfold]
  have v: "snd (fst (runConsensusAgents scripted_engine split_voters ''Which?'' [''A'', ''B''] w0)) =
      [(''first'', ''B''), (''second'', ''A'')]"
    by (simp add: consensus_defs split_voters_def eval_defs)
  from t [of split_voters] obtain pre a opt post where
    s: "[(''first'', ''B''), (''second'', ''A'')] = pre @ (a, opt) # post"
    and w: "fst (fst (runConsensusAgents scripted_engine split_voters ''Which?'' [''A'', ''B''] w0)) = Some opt"
    and lt: "\<forall>e\<in>set pre. tally [(''first'', ''B''), (''second'', ''A'')] (snd e) <
                tally [(''first'', ''B''), (''second'', ''A'')] opt"
    unfolding v by auto
  have "opt = ''B''"
  proof (cases pre)
    case Nil
    with s show ?thesis by simp
  next
    case (Cons p ps)
    with s have "p = (''first'', ''B'')" and "(a, opt) \<in> set [(''second'', ''A'')]"
      by (auto simp add: Cons_eq_append_conv)
    with lt Cons show ?thesis by (simp add: tally_def)
  qed
  with w have 1: "fst (fst (runConsensusAgents scripted_engine split_voters ''Which?'' [''A'', ''B''] w0)) = Some ''B''"
    by simp
  have "snd (fst (runConsensusAgents scripted_engine [] ''Which?'' [''A'', ''B''] w0)) = []"
    by (simp add: consensus_defs eval_defs)
  with t [of "[]"] have "fst (fst (runConsensusAgents scripted_engine [] ''Which?'' [''A'', ''B''] w0)) = Some ''A''"
    by (simp add: first_option_def)
  with 1 show ?thesis by simp
qed

section \<open>Handoff\<close>

text \<open>A handoff whose message can be built commits both changes, whatever the run returns.\<close>

lemma handoff_commits:
  fixes eng :: engine and orch :: "'d orchestrator"
  assumes "currentAgent orch = Some cur" and "cur \<noteq> []"
    and "agents orch to = Some nextAgent"
    and "data_line rt d = Inr dl"
  shows "\<exists>res orch' w'. handoff rt eng to ctxt d orch w = (Inr res, orch', w') \<and>
           res = fst (run eng nextAgent (handoffMessage cur ctxt dl) w) \<and>
           handoffHistory orch' = handoffHistory orch @
             [\<lparr> fromAgent = cur, toAgent = to, handoff_context = ctxt, data = d \<rparr>] \<and>
           currentAgent orch' = Some to \<and>
           queries w' = queries w @
             [(run_params nextAgent (handoffMessage cur ctxt dl),
               engine_outcome eng nextAgent (handoffMessage cur ctxt dl) w)] \<and>
           constructed w' = constructed w"
  using assms
  by (simp add: handoff_def Let_def case_prod_unfold run_world)

text \<open>When \<open>JSON.stringify\<close> throws, the record is in the history and the cursor has not moved.\<close>

lemma handoff_throws:
  fixes eng :: engine and orch :: "'d orchestrator"
  assumes "currentAgent orch = Some cur" and "cur \<noteq> []"
    and "agents orch to = Some nextAgent"
    and "data_line rt d = Inl e"
  shows "handoff rt eng to ctxt d orch w =
           (Inl e,
            orch\<lparr> handoffHistory := handoffHistory orch @
              [\<lparr> fromAgent = cur, toAgent = to, handoff_context = ctxt, data = d \<rparr>] \<rparr>,
            w)"
  using assms
  by (simp add: handoff_def Let_def)

text \<open>
  C10 at an input where the code departs from it. After \<open>execute\<close> on \<open>researcher\<close>, a
  handoff to the registered \<open>writer\<close> with a payload that refers to itself: both
  preconditions hold, the record is appended, and \<open>JSON.stringify\<close> throws before the
  cursor moves. The call ends with the thrown error instead of a result, the cursor is
  still \<open>researcher\<close>, and no run was attempted.
\<close>

theorem handoff_unserialisable_payload:
  "handoff payload_runtime scripted_engine ''writer'' ''draft it'' (Some CyclicObject)
       (fst started) (snd started) =
     (Inl (ErrorObject ''Converting circular structure to JSON''),
      (fst started)\<lparr> handoffHistory :=
         [\<lparr> fromAgent = ''researcher'', toAgent = ''writer'', handoff_context = ''draft it'',
            data = Some CyclicObject \<rparr>] \<rparr>,
      snd started) \<and>
   currentAgent (fst started) = Some ''researcher''"
proof -
  have "data_line payload_runtime (Some CyclicObject) =
      Inl (ErrorObject ''Converting circular structure to JSON'')"
    by (simp add: data_line_def payload_runtime_def)
  from handoff_throws[OF started_state(1) _ started_state(4) this, of scripted_engine "''draft it''" "snd started"]
  show ?thesis by (simp add: started_state)
qed

text \<open>The same handoff with a text as payload: the run fails, and both changes stay.\<close>

lemma handoff_failed_run:
  "\<exists>res orch' w'.
     handoff payload_runtime scripted_engine ''writer'' ''draft it'' (Some (PlainText ''notes''))
       (fst started) (snd started) = (Inr res, orch', w') \<and>
     \<not> success res \<and>
     handoffHistory orch' =
       [\<lparr> fromAgent = ''researcher'', toAgent = ''writer'', handoff_context = ''draft it'',
          data = Some (PlainText ''notes'') \<rparr>] \<and>
     currentAgent orch' = Some ''writer''"
proof -
  have dl: "data_line payload_runtime (Some (PlainText ''notes'')) = Inr (''Data: '' @ CHR 0x22 # ''notes'' @ [CHR 0x22])"
    by (simp add: data_line_def payload_runtime_def template_string_def)
  from handoff_commits[OF started_state(1) _ started_state(4) dl, of scripted_engine "''draft it''" "snd started"]
  obtain res orch' w' where h: "handoff payload_runtime scripted_engine ''writer'' ''draft it''
        (Some (PlainText ''notes'')) (fst started) (snd started) = (Inr res, orch', w')"
    and res: "res = fst (run scripted_engine
        \<lparr> config = with_defaults (spec_config \<lparr> name = ''writer'', systemPrompt = ''fail'' \<rparr>),
          agent_sessionId = None \<rparr>
        (handoffMessage ''researcher'' ''draft it'' (''Data: '' @ CHR 0x22 # ''notes'' @ [CHR 0x22]))
        (snd started))"
    and hist: "handoffHistory orch' = handoffHistory (fst started) @
        [\<lparr> fromAgent = ''researcher'', toAgent = ''writer'', handoff_context = ''draft it'',
           data = Some (PlainText ''notes'') \<rparr>]"
    and cur: "currentAgent orch' = Some ''writer''"
    by auto
  from res have "\<not> success res"
    by (simp add: run_eq engine_outcome_def run_params_def scripted_engine_def with_defaults_def
        spec_config_def error_message_def result_of_message_def Let_def)
  with h hist cur show ?thesis by (simp add: started_state)
qed

end
